theory Spec2Isabelle
  imports Main
begin

section \<open>JavaScript strings\<close>

text \<open>
  A JavaScript string is a sequence of UTF-16 code units. A code unit is modelled by its
  numeric value, so that the bullet U+2022 and the non-ASCII white space of \<open>\s\<close> and
  \<open>trim()\<close> are single elements, as they are for the source.
\<close>

type_synonym jschar = nat
type_synonym jsstring = "jschar list"

text \<open>Notation for ASCII literals of the source: \<open>ascii ''abc''\<close> is the string \<open>'abc'\<close>.\<close>

definition ascii :: "string \<Rightarrow> jsstring" where
  "ascii cs = map of_char cs"

abbreviation LF :: jschar where "LF \<equiv> 10"
abbreviation SPACE :: jschar where "SPACE \<equiv> 32"
abbreviation HASH :: jschar where "HASH \<equiv> 35"
abbreviation DOLLAR :: jschar where "DOLLAR \<equiv> 36"
abbreviation STAR :: jschar where "STAR \<equiv> 42"
abbreviation MINUS :: jschar where "MINUS \<equiv> 45"
abbreviation DOT :: jschar where "DOT \<equiv> 46"
abbreviation PIPE :: jschar where "PIPE \<equiv> 124"
abbreviation BULLET :: jschar where "BULLET \<equiv> 8226"

text \<open>
  \<open>\s\<close> of a regular expression and the characters removed by \<open>trim()\<close>: the WhiteSpace
  and LineTerminator code points of ECMAScript (TAB, LF, VT, FF, CR, SPACE, NBSP, U+1680,
  U+2000..U+200A, U+2028, U+2029, U+202F, U+205F, U+3000, U+FEFF).
\<close>

definition is_ws :: "jschar \<Rightarrow> bool" where
  "is_ws c \<longleftrightarrow>
     c = 9 \<or> c = 10 \<or> c = 11 \<or> c = 12 \<or> c = 13 \<or> c = 32 \<or> c = 160 \<or> c = 5760 \<or>
     (8192 \<le> c \<and> c \<le> 8202) \<or> c = 8232 \<or> c = 8233 \<or> c = 8239 \<or> c = 8287 \<or>
     c = 12288 \<or> c = 65279"

text \<open>The characters after which \<open>^\<close> matches under the \<open>m\<close> flag: LF, CR, U+2028, U+2029.\<close>

definition is_line_terminator :: "jschar \<Rightarrow> bool" where
  "is_line_terminator c \<longleftrightarrow> c = 10 \<or> c = 13 \<or> c = 8232 \<or> c = 8233"

text \<open>\<open>\d\<close>: the digits 0 to 9.\<close>

definition is_digit :: "jschar \<Rightarrow> bool" where
  "is_digit c \<longleftrightarrow> 48 \<le> c \<and> c \<le> 57"

text \<open>\<open>String.prototype.trim\<close>.\<close>

definition trim :: "jsstring \<Rightarrow> jsstring" where
  "trim s = rev (dropWhile is_ws (rev (dropWhile is_ws s)))"

text \<open>
  \<open>s.split(d)\<close> for a one-character separator: the pieces between the occurrences of
  \<open>d\<close>; a string without \<open>d\<close> (the empty string too) gives one piece.
\<close>

fun split_on :: "jschar \<Rightarrow> jsstring \<Rightarrow> jsstring list" where
  "split_on d [] = [[]]"
| "split_on d (c # cs) =
     (if c = d then [] # split_on d cs
      else (case split_on d cs of
              [] \<Rightarrow> [[c]]
            | l # ls \<Rightarrow> (c # l) # ls))"

text \<open>\<open>s.startsWith(p)\<close> and \<open>s.includes(p)\<close>.\<close>

definition starts_with :: "jsstring \<Rightarrow> jsstring \<Rightarrow> bool" where
  "starts_with s p \<longleftrightarrow> take (length p) s = p"

fun includes_str :: "jsstring \<Rightarrow> jsstring \<Rightarrow> bool" where
  "includes_str [] p = (p = [])"
| "includes_str (c # cs) p = (starts_with (c # cs) p \<or> includes_str cs p)"

text \<open>\<open>Array.prototype.findIndex\<close>: the index of the first element satisfying \<open>P\<close>, or -1.\<close>

fun findIndex :: "('a \<Rightarrow> bool) \<Rightarrow> 'a list \<Rightarrow> int" where
  "findIndex P [] = -1"
| "findIndex P (x # xs) =
     (if P x then 0
      else (let k = findIndex P xs in if k < 0 then -1 else k + 1))"

text \<open>\<open>xs[i]\<close>: \<open>None\<close> stands for \<open>undefined\<close>, the value of an index out of range.\<close>

definition js_index :: "'a list \<Rightarrow> int \<Rightarrow> 'a option" where
  "js_index xs i = (if 0 \<le> i \<and> nat i < length xs then Some (xs ! nat i) else None)"

text \<open>\<open>xs.slice(k)\<close>: a negative \<open>k\<close> counts from the end.\<close>

definition slice_from :: "int \<Rightarrow> 'a list \<Rightarrow> 'a list" where
  "slice_from k xs =
     (if k < 0 then drop (nat (max (int (length xs) + k) 0)) xs else drop (nat k) xs)"

section \<open>The regular expressions of formatSummary\<close>

text \<open>
  \<open>#+\s*\d\.\s*\<close> matched at the start of \<open>s\<close>: the number of code units matched, or
  \<open>None\<close>. The classes \<open>#\<close>, \<open>\s\<close> and \<open>\d\<close> are disjoint, so giving back part of a
  greedy run never lets the next item match: the greedy match is the only one up to the
  dot, and the last \<open>\s*\<close> takes every white space that follows.
\<close>

definition match_heading_number :: "jsstring \<Rightarrow> nat option" where
  "match_heading_number s =
     (let hashes = takeWhile (\<lambda>c. c = HASH) s;
          r1 = dropWhile (\<lambda>c. c = HASH) s;
          ws1 = takeWhile is_ws r1;
          r2 = dropWhile is_ws r1
      in if hashes = [] then None
         else (case r2 of
                 d # p # r3 \<Rightarrow>
                   if is_digit d \<and> p = DOT
                   then Some (length hashes + length ws1 + 2 + length (takeWhile is_ws r3))
                   else None
               | _ \<Rightarrow> None))"

text \<open>\<open>#+\s*\d\.\s*Action Items:\<close> matched at the start of \<open>s\<close>.\<close>

definition match_action_heading :: "jsstring \<Rightarrow> nat option" where
  "match_action_heading s =
     (case match_heading_number s of
        None \<Rightarrow> None
      | Some n \<Rightarrow>
          if starts_with (drop n s) (ascii ''Action Items:'')
          then Some (n + length (ascii ''Action Items:''))
          else None)"

text \<open>
  The lazy \<open>[\s\S]*?\<close> before the lookahead \<open>(?=(#+\s*\d\.\s*)|$)\<close>: it takes code units
  one at a time and stops at the first position where a numbered heading starts, or at
  the end of the input. The result is the text taken and the text left.
\<close>

fun lazy_body :: "jsstring \<Rightarrow> jsstring \<times> jsstring" where
  "lazy_body [] = ([], [])"
| "lazy_body (c # cs) =
     (if match_heading_number (c # cs) \<noteq> None then ([], c # cs)
      else (let (b, r) = lazy_body cs in (c # b, r)))"

text \<open>
  \<open>formatted.match(actionItemsRegex)\<close>: the leftmost match. The result is the text before
  the match, capture group 1 (the whole match, the lookahead takes nothing) and the text
  after it; \<open>None\<close> is the \<open>null\<close> of no match.
\<close>

fun match_action_items :: "jsstring \<Rightarrow> (jsstring \<times> jsstring \<times> jsstring) option" where
  "match_action_items [] = None"
| "match_action_items (c # cs) =
     (case match_action_heading (c # cs) of
        Some n \<Rightarrow>
          (let (b, r) = lazy_body (drop n (c # cs))
           in Some ([], take n (c # cs) @ b, r))
      | None \<Rightarrow>
          (case match_action_items cs of
             None \<Rightarrow> None
           | Some (pre, blk, post) \<Rightarrow> Some (c # pre, blk, post)))"

section \<open>Replacing by a string pattern\<close>

text \<open>The first occurrence of \<open>p\<close> in \<open>s\<close>: the text before it and the text after it.\<close>

fun find_first :: "jsstring \<Rightarrow> jsstring \<Rightarrow> (jsstring \<times> jsstring) option" where
  "find_first [] p = (if p = [] then Some ([], []) else None)"
| "find_first (c # cs) p =
     (if starts_with (c # cs) p then Some ([], drop (length p) (c # cs))
      else (case find_first cs p of
              None \<Rightarrow> None
            | Some (pre, post) \<Rightarrow> Some (c # pre, post)))"

text \<open>
  GetSubstitution for a string pattern (no capture groups): in the replacement text
  \<open>$$\<close> is a dollar, \<open>$&\<close> the matched text, \<open>$`\<close> the text before the match and \<open>$'\<close>
  the text after it; every other dollar stands for itself.
\<close>

fun get_substitution :: "jsstring \<Rightarrow> jsstring \<Rightarrow> jsstring \<Rightarrow> jsstring \<Rightarrow> jsstring" where
  "get_substitution matched pre post (a # b # cs) =
     (if a = DOLLAR \<and> b = DOLLAR then DOLLAR # get_substitution matched pre post cs
      else if a = DOLLAR \<and> b = 38 then matched @ get_substitution matched pre post cs
      else if a = DOLLAR \<and> b = 96 then pre @ get_substitution matched pre post cs
      else if a = DOLLAR \<and> b = 39 then post @ get_substitution matched pre post cs
      else a # get_substitution matched pre post (b # cs))"
| "get_substitution matched pre post cs = cs"

text \<open>\<open>s.replace(p, r)\<close> with strings \<open>p\<close> and \<open>r\<close>: the first occurrence only.\<close>

definition replace_str :: "jsstring \<Rightarrow> jsstring \<Rightarrow> jsstring \<Rightarrow> jsstring" where
  "replace_str s p r =
     (case find_first s p of
        None \<Rightarrow> s
      | Some (pre, post) \<Rightarrow> pre @ get_substitution p pre post r @ post)"

section \<open>The table of the Action Items block\<close>

text \<open>\<open>headerLine.split('|').map(h => h.trim().replace(/\*| /g, '')).filter(Boolean)\<close>\<close>

definition parse_headers :: "jsstring \<Rightarrow> jsstring list" where
  "parse_headers headerLine =
     filter (\<lambda>h. h \<noteq> [])
       (map (\<lambda>h. filter (\<lambda>c. c \<noteq> STAR \<and> c \<noteq> SPACE) (trim h)) (split_on PIPE headerLine))"

text \<open>\<open>line.split('|').map(cell => cell.trim()).filter(Boolean)\<close>\<close>

definition parse_row :: "jsstring \<Rightarrow> jsstring list" where
  "parse_row line = filter (\<lambda>cell. cell \<noteq> []) (map trim (split_on PIPE line))"

text \<open>\<open>lines.map(...).filter(row => row.length > 0)\<close>\<close>

definition parse_rows :: "jsstring list \<Rightarrow> jsstring list list" where
  "parse_rows ls = filter (\<lambda>row. length row > 0) (map parse_row ls)"

text \<open>\<open>row[i] || 'N/A'\<close>: \<open>N/A\<close> for \<open>undefined\<close> and for the empty string.\<close>

definition cell_value :: "jsstring list \<Rightarrow> nat \<Rightarrow> jsstring" where
  "cell_value row i =
     (case js_index row (int i) of
        None \<Rightarrow> ascii ''N/A''
      | Some v \<Rightarrow> if v = [] then ascii ''N/A'' else v)"

text \<open>The inner \<open>headers.forEach((h, i) => ...)\<close>, from index \<open>i\<close> on.\<close>

fun render_cells :: "nat \<Rightarrow> jsstring list \<Rightarrow> jsstring list \<Rightarrow> jsstring" where
  "render_cells i [] row = []"
| "render_cells i (h # hs) row =
     (if i = 0 then [BULLET, SPACE] @ h @ ascii '': '' @ cell_value row i @ [LF]
      else ascii ''    '' @ h @ ascii '': '' @ cell_value row i @ [LF])
     @ render_cells (i + 1) hs row"

text \<open>The outer \<open>rows.forEach(row => ...)\<close>.\<close>

fun render_rows :: "jsstring list \<Rightarrow> jsstring list list \<Rightarrow> jsstring" where
  "render_rows headers [] = []"
| "render_rows headers (row # rows) =
     [LF] @ render_cells 0 headers row @ render_rows headers rows"

datatype jserror = TypeError

text \<open>
  The body of \<open>if (match && match[1] && match[1].includes('|'))\<close>: \<open>Inr (Some newContent)\<close>
  when the table is accepted, \<open>Inr None\<close> when the block is left alone, and \<open>Inl TypeError\<close>
  for \<open>headerLine.split\<close> on \<open>undefined\<close>.
\<close>

definition table_replacement :: "jsstring \<Rightarrow> jserror + jsstring option" where
  "table_replacement originalBlock =
     (let blockLines = split_on LF (trim originalBlock);
          headerText = (case blockLines of [] \<Rightarrow> ascii ''undefined'' | h # _ \<Rightarrow> h);
          tableLines = slice_from 1 blockLines;
          separatorIndex = findIndex (\<lambda>l. includes_str l (ascii ''---'')) tableLines
      in if separatorIndex > 0 then
           (case js_index tableLines (separatorIndex - 1) of
              None \<Rightarrow> Inl TypeError
            | Some headerLine \<Rightarrow>
                (let headers = parse_headers headerLine;
                     rows = parse_rows (slice_from (separatorIndex + 1) tableLines)
                 in if length rows > 0 \<and> length headers > 0
                       \<and> list_all (\<lambda>r. length r = length headers) rows
                    then Inr (Some (headerText @ [LF] @ render_rows headers rows))
                    else Inr None))
         else Inr None)"

section \<open>The final cleanup\<close>

text \<open>\<open>replace(/\*\*/g, '')\<close>: the pairs of stars, left to right.\<close>

fun remove_bold :: "jsstring \<Rightarrow> jsstring" where
  "remove_bold (a # b # cs) =
     (if a = STAR \<and> b = STAR then remove_bold cs else a # remove_bold (b # cs))"
| "remove_bold cs = cs"

text \<open>\<open>replace(/\*/g, '')\<close>\<close>

definition remove_stars :: "jsstring \<Rightarrow> jsstring" where
  "remove_stars s = filter (\<lambda>c. c \<noteq> STAR) s"

text \<open>
  \<open>^\<close> under the \<open>m\<close> flag, given the code unit before the position (\<open>None\<close> at the
  start of the input).
\<close>

definition at_line_start :: "jschar option \<Rightarrow> bool" where
  "at_line_start prev = (case prev of None \<Rightarrow> True | Some p \<Rightarrow> is_line_terminator p)"

lemma match_heading_number_bounds:
  "match_heading_number s = Some n \<Longrightarrow> 0 < n \<and> n \<le> length s"
proof -
  assume a: "match_heading_number s = Some n"
  let ?h = "takeWhile (\<lambda>c. c = HASH) s"
  let ?r1 = "dropWhile (\<lambda>c. c = HASH) s"
  let ?w = "takeWhile is_ws ?r1"
  let ?r2 = "dropWhile is_ws ?r1"
  from a have h: "?h \<noteq> []"
    by (auto simp: match_heading_number_def Let_def split: if_splits)
  from a obtain d p r3 where r2: "?r2 = d # p # r3"
    and n: "n = length ?h + length ?w + 2 + length (takeWhile is_ws r3)"
    by (auto simp: match_heading_number_def Let_def split: if_splits list.splits)
  have "length s = length ?h + length ?r1"
    by (metis length_append takeWhile_dropWhile_id)
  also have "length ?r1 = length ?w + length ?r2"
    by (metis length_append takeWhile_dropWhile_id)
  also have "length ?r2 = 2 + length r3" using r2 by simp
  also have "length r3 = length (takeWhile is_ws r3) + length (dropWhile is_ws r3)"
    by (metis length_append takeWhile_dropWhile_id)
  finally have "n \<le> length s" using n by simp
  moreover have "0 < n" using n by simp
  ultimately show ?thesis by simp
qed

text \<open>
  \<open>replace(/^#+\s*\d\.\s*/gm, '')\<close>: the scan goes on after each match, where \<open>^\<close> looks at
  the last code unit of the match.
\<close>

function strip_heading_numbers :: "jschar option \<Rightarrow> jsstring \<Rightarrow> jsstring" where
  "strip_heading_numbers prev [] = []"
| "strip_heading_numbers prev (c # cs) =
     (case (if at_line_start prev then match_heading_number (c # cs) else None) of
        Some n \<Rightarrow>
          strip_heading_numbers (Some (last (take n (c # cs)))) (drop n (c # cs))
      | None \<Rightarrow> c # strip_heading_numbers (Some c) cs)"
  by pat_completeness auto
termination
proof (relation "measure (\<lambda>(prev, s). length s)")
  show "wf (measure (\<lambda>(prev, s). length s))" by simp
next
  fix prev :: "jschar option" and c :: jschar and cs :: jsstring and n :: nat
  assume "(if at_line_start prev then match_heading_number (c # cs) else None) = Some n"
  then have "match_heading_number (c # cs) = Some n" by (simp split: if_splits)
  then have "0 < n" using match_heading_number_bounds by blast
  then show "((Some (last (take n (c # cs))), drop n (c # cs)), (prev, c # cs))
      \<in> measure (\<lambda>(prev, s). length s)" by simp
next
  fix prev :: "jschar option" and c :: jschar and cs :: jsstring
  show "((Some c, cs), (prev, c # cs)) \<in> measure (\<lambda>(prev, s). length s)" by simp
qed

text \<open>\<open>replace(/^[-\<bullet>]\s*/gm, '\<bullet> ')\<close>\<close>

function standardize_bullets :: "jschar option \<Rightarrow> jsstring \<Rightarrow> jsstring" where
  "standardize_bullets prev [] = []"
| "standardize_bullets prev (c # cs) =
     (if at_line_start prev \<and> (c = MINUS \<or> c = BULLET)
      then [BULLET, SPACE]
           @ standardize_bullets (Some (last (c # takeWhile is_ws cs))) (dropWhile is_ws cs)
      else c # standardize_bullets (Some c) cs)"
  by pat_completeness auto
termination
  by (relation "measure (\<lambda>(prev, s). length s)")
     (auto simp: length_dropWhile_le less_Suc_eq_le)

text \<open>
  \<open>(\n\s*){3,}\<close> matches at the start of \<open>s\<close>: \<open>s\<close> starts with a line feed whose
  white-space run holds at least three line feeds (each repetition of the group starts
  at one of them). The greedy \<open>\s*\<close> of the last repetition takes the run to its end,
  so \<open>replace(/(\n\s*){3,}/g, '\n\n')\<close> puts two line feeds for the whole run.
\<close>

definition newline_run :: "jsstring \<Rightarrow> bool" where
  "newline_run s =
     (case s of
        [] \<Rightarrow> False
      | c # cs \<Rightarrow> c = LF \<and> 3 \<le> length (filter (\<lambda>x. x = LF) (c # takeWhile is_ws cs)))"

text \<open>The line feeds in the white space at the start of \<open>s\<close>.\<close>

abbreviation lf_count :: "jsstring \<Rightarrow> nat" where
  "lf_count s \<equiv> length (filter (\<lambda>x. x = LF) (takeWhile is_ws s))"

function collapse_newlines :: "jsstring \<Rightarrow> jsstring" where
  "collapse_newlines [] = []"
| "collapse_newlines (c # cs) =
     (if newline_run (c # cs) then [LF, LF] @ collapse_newlines (dropWhile is_ws cs)
      else c # collapse_newlines cs)"
  by pat_completeness auto
termination
  by (relation "measure length") (auto simp: length_dropWhile_le less_Suc_eq_le)

text \<open>The six statements of the final cleanup, in the order of the source.\<close>

definition cleanup :: "jsstring \<Rightarrow> jsstring" where
  "cleanup s =
     trim (collapse_newlines (standardize_bullets None (strip_heading_numbers None
       (remove_stars (remove_bold s)))))"

section \<open>formatSummary\<close>

text \<open>The argument of \<open>formatSummary\<close>: a string, or one of the absent values.\<close>

datatype jsvalue = Undefined | Null | Str jsstring

definition formatSummary :: "jsvalue \<Rightarrow> jserror + jsstring" where
  "formatSummary summary =
     (case summary of
        Str s \<Rightarrow>
          if s = [] then Inr []
          else (case match_action_items s of
                  Some (pre, originalBlock, post) \<Rightarrow>
                    if originalBlock \<noteq> [] \<and> includes_str originalBlock [PIPE] then
                      (case table_replacement originalBlock of
                         Inl e \<Rightarrow> Inl e
                       | Inr None \<Rightarrow> Inr (cleanup s)
                       | Inr (Some newContent) \<Rightarrow>
                           Inr (cleanup (replace_str s originalBlock newContent)))
                    else Inr (cleanup s)
                | None \<Rightarrow> Inr (cleanup s))
      | _ \<Rightarrow> Inr [])"

section \<open>Example summaries\<close>

text \<open>Notation for literals of several lines: \<open>lines.join('\n')\<close>.\<close>

definition join_lines :: "jsstring list \<Rightarrow> jsstring" where
  "join_lines ls = (case ls of [] \<Rightarrow> [] | l # rest \<Rightarrow> l @ concat (map (\<lambda>x. LF # x) rest))"



text \<open>The same block with every cell filled.\<close>

definition full_rows_example :: jsstring where
  "full_rows_example = join_lines (map ascii
     [''## 3. Action Items:'', ''| Task | Owner |'', ''| --- | --- |'',
      ''| Fix bug | Alice |'', ''| Write docs | Bob |''])"


text \<open>A row with an empty cell between two filled ones, under two headers.\<close>

definition empty_cell_example :: jsstring where
  "empty_cell_example = join_lines (map ascii
     [''## 3. Action Items:'', ''| Task | Owner |'', ''| --- | --- |'',
      ''| Write docs |  | Bob |''])"

text \<open>A blank line between two data rows, and a closing remark after a blank line.\<close>

definition blank_line_example :: jsstring where
  "blank_line_example = join_lines
     [ascii ''## 3. Action Items:'', ascii ''| Task | Owner |'', ascii ''| --- | --- |'',
      ascii ''| Fix bug | Alice |'', [], ascii ''| Write docs | Bob |'']"

definition trailing_note_example :: jsstring where
  "trailing_note_example = join_lines
     [ascii ''## 3. Action Items:'', ascii ''| Task | Owner |'', ascii ''| --- | --- |'',
      ascii ''| Fix bug | Alice |'', [], ascii ''Thanks all'']"

text \<open>A separator row right under the heading, and a row shorter than the header row.\<close>

definition no_header_row :: jsstring where
  "no_header_row = join_lines (map ascii
     [''## 3. Action Items:'', ''| --- | --- |'', ''| Fix bug | Alice |''])"

definition short_row :: jsstring where
  "short_row = join_lines (map ascii
     [''## 3. Action Items:'', ''| Task | Owner | Due |'', ''| --- | --- | --- |'',
      ''| Fix bug | Alice |''])"

text \<open>A summary without an Action Items section.\<close>

definition plain_summary :: jsstring where
  "plain_summary = join_lines
     [ascii ''**Summary**'', ascii ''- point *one*'', [], [], [], ascii ''## 2. Notes  '']"

section \<open>Conditions on a summary\<close>

text \<open>
  No numbered heading starts a line of \<open>s\<close>: \<open>/^#+\s*\d\.\s*/m\<close> has no match in it. The
  first argument is the code unit before \<open>s\<close>, as for \<open>strip_heading_numbers\<close>.
\<close>

fun no_heading_at_line_start :: "jschar option \<Rightarrow> jsstring \<Rightarrow> bool" where
  "no_heading_at_line_start prev [] = True"
| "no_heading_at_line_start prev (c # cs) =
     ((if at_line_start prev then match_heading_number (c # cs) = None else True)
      \<and> no_heading_at_line_start (Some c) cs)"

text \<open>
  Every \<open>-\<close> or \<open>\<bullet>\<close> that starts a line of \<open>s\<close> is a \<open>\<bullet>\<close> that ends the text or is followed
  by exactly one space and then by no more white space: the bullets of \<open>s\<close> have the
  standard form already.
\<close>

fun bullets_standard :: "jschar option \<Rightarrow> jsstring \<Rightarrow> bool" where
  "bullets_standard prev [] = True"
| "bullets_standard prev (c # cs) =
     ((if at_line_start prev \<and> (c = MINUS \<or> c = BULLET)
       then c = BULLET \<and> (cs = [] \<or> takeWhile is_ws cs = [SPACE]) else True)
      \<and> bullets_standard (Some c) cs)"

text \<open>A list marker at the end of the text.\<close>

definition trailing_bullet_example :: jsstring where
  "trailing_bullet_example = join_lines [ascii ''To do:'', ascii ''-'']"

text \<open>Runs of line feeds at the end of a text and inside it.\<close>

definition trailing_newlines_example :: jsstring where
  "trailing_newlines_example = ascii ''a'' @ [LF, LF, LF, LF]"

definition inner_newlines_example :: jsstring where
  "inner_newlines_example = ascii ''a'' @ [LF, LF, LF, LF] @ ascii ''b''"

text \<open>An indented list item after two blank lines, before a table with every cell filled.\<close>

definition indented_item_example :: jsstring where
  "indented_item_example = join_lines
     [ascii ''Notes:'', [], [], ascii ''  - item'',
      ascii ''## 3. Action Items:'', ascii ''| Task | Owner |'', ascii ''| --- | --- |'',
      ascii ''| Fix bug | Alice |'']"

text \<open>Two Action Items sections, each with a table that would be accepted.\<close>

definition two_blocks_example :: jsstring where
  "two_blocks_example = join_lines (map ascii
     [''## 3. Action Items:'', ''| Task | Owner |'', ''| --- | --- |'',
      ''| Fix bug | Alice |'',
      ''## 4. Action Items:'', ''| Task | Owner |'', ''| --- | --- |'',
      ''| Write docs | Bob |''])"

text \<open>
  An indented heading after two blank lines; an Action Items heading in the middle of a
  line, followed by a second section; a table with a hash in a cell and a header that
  starts with a digit and a dot.
\<close>

definition indented_heading_example :: jsstring where
  "indented_heading_example = join_lines
     [ascii ''Notes:'', [], [], ascii ''  ## 2. Next'',
      ascii ''## 3. Action Items:'', ascii ''| Task | Owner |'', ascii ''| --- | --- |'',
      ascii ''| Fix bug | Alice |'']"

definition inline_block_example :: jsstring where
  "inline_block_example = join_lines (map ascii
     [''See ## 3. Action Items:'', ''| Task | Owner |'', ''| --- | --- |'',
      ''| Fix bug | Alice |'',
      ''## 4. Action Items:'', ''| Task | Owner |'', ''| --- | --- |'',
      ''| Write docs | Bob |''])"

definition hash_cell_example :: jsstring where
  "hash_cell_example = join_lines (map ascii
     [''## 3. Action Items:'', ''| T | 1.x |'', ''| --- | --- |'', ''| a# | v |''])"

text \<open>A numbered Action Items heading inside a table row.\<close>

definition inline_heading_example :: jsstring where
  "inline_heading_example = join_lines (map ascii
     [''## 3. Action Items:'', ''| T |'', ''| --- |'', ''| a |'',
      ''| ## 4. Action Items: |'', ''| c |''])"

section \<open>Auxiliary facts\<close>

text \<open>The defining equations that evaluate \<open>formatSummary\<close> on a literal.\<close>

lemmas eval_defs =
  ascii_def join_lines_def match_action_heading_def match_heading_number_def is_ws_def
  is_digit_def starts_with_def Let_def formatSummary_def cleanup_def trim_def
  remove_stars_def at_line_start_def is_line_terminator_def newline_run_def
  table_replacement_def slice_from_def js_index_def parse_headers_def parse_row_def
  parse_rows_def cell_value_def replace_str_def

subsection \<open>The table\<close>

lemma findIndex_bounds: "- 1 \<le> findIndex P xs \<and> findIndex P xs < int (length xs)"
  by (induction xs) (auto simp: Let_def)

text \<open>\<open>tableLines[separatorIndex - 1]\<close> is never \<open>undefined\<close> under \<open>separatorIndex > 0\<close>.\<close>

lemma table_replacement_no_error: "table_replacement b \<noteq> Inl e"
proof -
  let ?tl = "slice_from 1 (split_on LF (trim b))"
  let ?k = "findIndex (\<lambda>l. includes_str l (ascii ''---'')) ?tl"
  have "0 < ?k \<Longrightarrow> js_index ?tl (?k - 1) \<noteq> None"
    using findIndex_bounds [of "\<lambda>l. includes_str l (ascii ''---'')" ?tl]
    by (simp add: js_index_def)
  then show ?thesis
    by (auto simp: table_replacement_def Let_def split: option.splits)
qed

lemma cleanup_Nil: "cleanup [] = []"
  by (simp add: cleanup_def trim_def remove_stars_def)

lemma table_replacement_Some:
  assumes "table_replacement blk = Inr (Some newContent)"
    and "tableLines = slice_from 1 (split_on LF (trim blk))"
    and "k = findIndex (\<lambda>l. includes_str l (ascii ''---'')) tableLines"
  shows "0 < k \<and> (\<exists>headerLine. js_index tableLines (k - 1) = Some headerLine
     \<and> parse_rows (slice_from (k + 1) tableLines) \<noteq> []
     \<and> parse_headers headerLine \<noteq> []
     \<and> list_all (\<lambda>r. length r = length (parse_headers headerLine))
          (parse_rows (slice_from (k + 1) tableLines))
     \<and> newContent = (case split_on LF (trim blk) of [] \<Rightarrow> ascii ''undefined'' | h # _ \<Rightarrow> h)
          @ [LF] @ render_rows (parse_headers headerLine)
                     (parse_rows (slice_from (k + 1) tableLines)))"
  using assms
  by (auto simp: table_replacement_def Let_def split: if_splits option.splits)

lemma render_rows_append:
  "render_rows hs (a @ b) = render_rows hs a @ render_rows hs b"
  by (induction a) auto

lemma split_on_no_separator: "d \<notin> set l \<Longrightarrow> split_on d l = [l]"
  by (induction l) auto

lemma trim_blank: "\<forall>c \<in> set l. is_ws c \<Longrightarrow> trim l = []"
proof -
  assume "\<forall>c \<in> set l. is_ws c"
  then have d: "dropWhile is_ws l = []" by simp
  show ?thesis unfolding trim_def d by simp
qed

lemma parse_row_blank: "\<forall>c \<in> set l. is_ws c \<Longrightarrow> parse_row l = []"
proof -
  assume a: "\<forall>c \<in> set l. is_ws c"
  have "\<not> is_ws PIPE" by (simp add: is_ws_def)
  with a have "PIPE \<notin> set l" by blast
  then show ?thesis using a by (simp add: parse_row_def split_on_no_separator trim_blank)
qed

lemma parse_row_no_pipe: "PIPE \<notin> set l \<Longrightarrow> trim l \<noteq> [] \<Longrightarrow> parse_row l = [trim l]"
  by (simp add: parse_row_def split_on_no_separator)

subsection \<open>Runs of line feeds\<close>

text \<open>
  After the collapse no position of the text starts a run of three groups, and the trim
  only removes code units at the two ends.
\<close>

lemma is_ws_LF: "is_ws LF"
  by (simp add: is_ws_def)

lemma newline_run_Nil: "\<not> newline_run []"
  by (simp add: newline_run_def)

lemma newline_run_Cons:
  "newline_run (c # cs) \<longleftrightarrow> c = LF \<and> 2 \<le> length (filter (\<lambda>x. x = LF) (takeWhile is_ws cs))"
  by (auto simp: newline_run_def)

lemma newline_run_head: "newline_run (c # cs) \<Longrightarrow> c = LF"
  by (simp add: newline_run_def)

lemma collapse_nonws_head:
  "s = [] \<or> \<not> is_ws (hd s) \<Longrightarrow> takeWhile is_ws (collapse_newlines s) = []"
proof (cases s)
  case Nil
  then show ?thesis by simp
next
  case (Cons c cs)
  assume "s = [] \<or> \<not> is_ws (hd s)"
  with Cons have nw: "\<not> is_ws c" by simp
  then have "c \<noteq> LF" using is_ws_LF by auto
  then have "\<not> newline_run (c # cs)" using newline_run_head by blast
  with Cons nw show ?thesis by simp
qed

lemma dropWhile_nonws_head: "dropWhile is_ws cs = [] \<or> \<not> is_ws (hd (dropWhile is_ws cs))"
  using hd_dropWhile [of is_ws cs] by blast

lemma collapse_after_run: "takeWhile is_ws (collapse_newlines (dropWhile is_ws cs)) = []"
  using collapse_nonws_head [OF dropWhile_nonws_head] .

lemma collapse_lf_count: "lf_count (collapse_newlines s) \<le> lf_count s"
proof (induction s rule: collapse_newlines.induct)
  case 1
  then show ?case by simp
next
  case (2 c cs)
  show ?case
  proof (cases "newline_run (c # cs)")
    case True
    then have "3 \<le> lf_count (c # cs)"
      by (auto simp: newline_run_Cons is_ws_LF)
    moreover have "lf_count (collapse_newlines (c # cs)) = 2"
      using True collapse_after_run [of cs] by (simp add: is_ws_LF)
    ultimately show ?thesis by simp
  next
    case False
    with 2 show ?thesis by auto
  qed
qed

lemma collapse_no_run: "\<not> newline_run (drop k (collapse_newlines s))"
proof (induction s arbitrary: k rule: collapse_newlines.induct)
  case 1
  then show ?case by (simp add: newline_run_def)
next
  case (2 c cs)
  show ?case
  proof (cases "newline_run (c # cs)")
    case True
    let ?r = "collapse_newlines (dropWhile is_ws cs)"
    have eq: "collapse_newlines (c # cs) = LF # LF # ?r" using True by simp
    have tw: "takeWhile is_ws ?r = []" by (rule collapse_after_run)
    show ?thesis
    proof (cases k)
      case 0
      then show ?thesis using eq tw by (simp add: newline_run_Cons is_ws_LF)
    next
      case (Suc k1)
      show ?thesis
      proof (cases k1)
        case 0
        with Suc show ?thesis using eq tw by (simp add: newline_run_Cons is_ws_LF)
      next
        case (Suc k2)
        with \<open>k = Suc k1\<close> show ?thesis using eq 2(1) [OF True, of k2] by simp
      qed
    qed
  next
    case False
    have eq: "collapse_newlines (c # cs) = c # collapse_newlines cs" using False by simp
    show ?thesis
    proof (cases k)
      case 0
      have "\<not> newline_run (c # collapse_newlines cs)"
      proof
        assume a: "newline_run (c # collapse_newlines cs)"
        then have "c = LF" and "3 \<le> Suc (lf_count (collapse_newlines cs))"
          by (auto simp: newline_run_def)
        then have "newline_run (c # cs)"
          using collapse_lf_count [of cs] by (simp add: newline_run_def)
        with False show False by simp
      qed
      with 0 eq show ?thesis by simp
    next
      case (Suc k1)
      then show ?thesis using eq 2(2) [OF False, of k1] by simp
    qed
  qed
qed

lemma newline_run_append: "newline_run x \<Longrightarrow> newline_run (x @ w)"
proof (cases x)
  case Nil
  assume "newline_run x"
  with Nil show ?thesis by (simp add: newline_run_def)
next
  case (Cons c cs)
  assume a: "newline_run x"
  have "lf_count cs \<le> lf_count (cs @ w)"
  proof (cases "\<forall>c \<in> set cs. is_ws c")
    case True
    then have t1: "takeWhile is_ws cs = cs" by simp
    have t2: "takeWhile is_ws (cs @ w) = cs @ takeWhile is_ws w"
      using True by (simp add: takeWhile_append)
    show ?thesis unfolding t1 t2 by simp
  next
    case False
    then have "takeWhile is_ws (cs @ w) = takeWhile is_ws cs"
      by (auto simp: takeWhile_append)
    then show ?thesis by simp
  qed
  with a Cons show ?thesis by (simp add: newline_run_Cons)
qed

lemma trim_decomp: "\<exists>j w. drop j u = trim u @ w"
proof -
  let ?v = "dropWhile is_ws u"
  have "?v = drop (length (takeWhile is_ws u)) u"
    by (simp add: dropWhile_eq_drop)
  moreover have "?v = trim u @ rev (takeWhile is_ws (rev ?v))"
    unfolding trim_def by (metis rev_append rev_rev_ident takeWhile_dropWhile_id)
  ultimately show ?thesis by metis
qed

lemma trim_no_run:
  assumes "\<And>k. \<not> newline_run (drop k u)"
  shows "\<not> newline_run (drop k (trim u))"
proof
  assume a: "newline_run (drop k (trim u))"
  obtain j w where d: "drop j u = trim u @ w" using trim_decomp by blast
  have k: "k < length (trim u)"
  proof (rule ccontr)
    assume "\<not> k < length (trim u)"
    then have "drop k (trim u) = []" by simp
    with a show False by (simp add: newline_run_def)
  qed
  have "drop k (drop j u) = drop k (trim u) @ w" using d k by simp
  then have "newline_run (drop (k + j) u)"
    using newline_run_append [OF a, of w] by (simp add: add.commute)
  with assms show False by blast
qed

lemma includes_str_drop: "includes_str s p \<Longrightarrow> \<exists>k. starts_with (drop k s) p"
proof (induction s)
  case Nil
  then show ?case by (simp add: starts_with_def)
next
  case (Cons c cs)
  show ?case
  proof (cases "starts_with (c # cs) p")
    case True
    then have "starts_with (drop 0 (c # cs)) p" by simp
    then show ?thesis by blast
  next
    case False
    with Cons.prems have "includes_str cs p" by simp
    then obtain k where "starts_with (drop k cs) p" using Cons.IH by blast
    then have "starts_with (drop (Suc k) (c # cs)) p" by simp
    then show ?thesis by blast
  qed
qed

lemma three_LF_run: "starts_with x [LF, LF, LF] \<Longrightarrow> newline_run x"
proof -
  assume "starts_with x [LF, LF, LF]"
  then have "take 3 x = [LF, LF, LF]" by (simp add: starts_with_def numeral_3_eq_3)
  then obtain r where "x = LF # LF # LF # r"
    by (metis append_Cons append_Nil append_take_drop_id)
  then show ?thesis by (simp add: newline_run_Cons is_ws_LF)
qed

lemma cleanup_no_run: "\<not> newline_run (drop k (cleanup s))"
  unfolding cleanup_def by (rule trim_no_run) (rule collapse_no_run)

lemma formatSummary_cases:
  "formatSummary v = Inr t \<Longrightarrow> t = [] \<or> (\<exists>u. t = cleanup u)"
  by (auto simp: formatSummary_def split: jsvalue.splits if_splits option.splits sum.splits)

lemma collapse_append_nonws:
  "\<not> is_ws x \<Longrightarrow>
     collapse_newlines (a @ x # rest) = collapse_newlines (a @ [x]) @ collapse_newlines rest"
proof (induction a rule: length_induct)
  case (1 a)
  assume nw: "\<not> is_ws x"
  have xlf: "x \<noteq> LF" using nw is_ws_LF by auto
  show ?case
  proof (cases a)
    case Nil
    have "\<not> newline_run (x # rest)" "\<not> newline_run [x]"
      using xlf by (auto simp: newline_run_def)
    with Nil show ?thesis by simp
  next
    case (Cons c cs)
    have tw: "takeWhile is_ws (cs @ x # rest) = takeWhile is_ws (cs @ [x])"
      using nw by (simp add: takeWhile_append)
    have dw: "dropWhile is_ws (cs @ x # rest) = dropWhile is_ws cs @ x # rest"
      "dropWhile is_ws (cs @ [x]) = dropWhile is_ws cs @ [x]"
      using nw by (auto simp: dropWhile_append)
    have run: "newline_run (c # cs @ x # rest) = newline_run (c # cs @ [x])"
      using tw by (simp add: newline_run_def)
    show ?thesis
    proof (cases "newline_run (c # cs @ [x])")
      case True
      have len: "length (dropWhile is_ws cs) < length a"
        using Cons by (simp add: length_dropWhile_le less_Suc_eq_le)
      have "collapse_newlines (dropWhile is_ws cs @ x # rest)
          = collapse_newlines (dropWhile is_ws cs @ [x]) @ collapse_newlines rest"
        using 1(1) len nw by blast
      then show ?thesis using True run Cons dw by simp
    next
      case False
      have "collapse_newlines (cs @ x # rest)
          = collapse_newlines (cs @ [x]) @ collapse_newlines rest"
        using 1(1) Cons nw by simp
      then show ?thesis using False run Cons by simp
    qed
  qed
qed

lemma collapse_run:
  assumes "newline_run run" and "\<forall>c \<in> set run. is_ws c" and "\<not> is_ws y"
  shows "collapse_newlines (run @ y # b) = [LF, LF] @ collapse_newlines (y # b)"
proof -
  obtain c rs where r: "run = c # rs" using assms(1) by (cases run) (auto simp: newline_run_def)
  have ws: "\<forall>c \<in> set rs. is_ws c" using assms(2) r by simp
  have tw: "takeWhile is_ws (rs @ y # b) = rs" "takeWhile is_ws rs = rs"
    using ws assms(3) by (auto simp: takeWhile_append)
  have dw: "dropWhile is_ws (rs @ y # b) = y # b"
    using ws assms(3) by (simp add: dropWhile_append)
  have "newline_run (c # rs @ y # b)"
    using assms(1) unfolding r newline_run_def list.case tw .
  then show ?thesis using r dw by simp
qed

subsection \<open>Texts that the cleanup leaves as they are\<close>

lemma remove_bold_id: "STAR \<notin> set s \<Longrightarrow> remove_bold s = s"
  by (induction s rule: remove_bold.induct) auto

lemma remove_stars_id: "STAR \<notin> set s \<Longrightarrow> remove_stars s = s"
  by (induction s) (auto simp: remove_stars_def)

lemma strip_heading_numbers_same:
  "no_heading_at_line_start prev s \<Longrightarrow> strip_heading_numbers prev s = s"
  by (induction prev s rule: strip_heading_numbers.induct) auto

text \<open>
  The bullet step leaves such a text as it is, but for the space that it puts after a
  bullet at the end of the text, which the trim removes again.
\<close>

lemma standardize_bullets_same:
  "bullets_standard prev s \<Longrightarrow>
     standardize_bullets prev s = s
     \<or> (standardize_bullets prev s = s @ [SPACE] \<and> s \<noteq> [] \<and> last s = BULLET)"
proof (induction prev s rule: standardize_bullets.induct)
  case (1 prev)
  then show ?case by simp
next
  case (2 prev c cs)
  show ?case
  proof (cases "at_line_start prev \<and> (c = MINUS \<or> c = BULLET)")
    case True
    with 2(3) have c: "c = BULLET" and f: "cs = [] \<or> takeWhile is_ws cs = [SPACE]"
      and rest: "bullets_standard (Some c) cs" by auto
    show ?thesis
    proof (cases "cs = []")
      case e: True
      with True c show ?thesis by simp
    next
      case False
      with f have tw: "takeWhile is_ws cs = [SPACE]" by simp
      define r where "r = dropWhile is_ws cs"
      have cs: "cs = SPACE # r"
        using takeWhile_dropWhile_id [of is_ws cs] tw by (simp add: r_def)
      have "\<not> at_line_start (Some BULLET)"
        by (simp add: at_line_start_def is_line_terminator_def)
      then have "bullets_standard (Some SPACE) r"
        using rest c cs by simp
      then have ih: "standardize_bullets (Some SPACE) r = r
          \<or> (standardize_bullets (Some SPACE) r = r @ [SPACE] \<and> r \<noteq> [] \<and> last r = BULLET)"
        using 2(1) [OF True] tw by (simp add: r_def)
      have eq: "standardize_bullets prev (c # cs)
          = BULLET # SPACE # standardize_bullets (Some SPACE) r"
        using True tw by (simp add: r_def)
      from ih show ?thesis
      proof
        assume "standardize_bullets (Some SPACE) r = r"
        then show ?thesis using eq c cs by simp
      next
        assume "standardize_bullets (Some SPACE) r = r @ [SPACE] \<and> r \<noteq> [] \<and> last r = BULLET"
        then show ?thesis using eq c cs by simp
      qed
    qed
  next
    case False
    with 2(3) have rest: "bullets_standard (Some c) cs" by simp
    have eq: "standardize_bullets prev (c # cs) = c # standardize_bullets (Some c) cs"
      using False by simp
    from 2(2) [OF False rest] show ?thesis
    proof
      assume "standardize_bullets (Some c) cs = cs"
      then show ?thesis using eq by simp
    next
      assume "standardize_bullets (Some c) cs = cs @ [SPACE] \<and> cs \<noteq> [] \<and> last cs = BULLET"
      then show ?thesis using eq by simp
    qed
  qed
qed

lemma collapse_newlines_id:
  "(\<And>k. \<not> newline_run (drop k s)) \<Longrightarrow> collapse_newlines s = s"
proof (induction s rule: collapse_newlines.induct)
  case 1
  then show ?case by simp
next
  case (2 c cs)
  have nr: "\<not> newline_run (c # cs)" using 2(3) [of 0] by simp
  have "\<And>k. \<not> newline_run (drop k cs)" using 2(3) [of "Suc k" for k] by simp
  then have "collapse_newlines cs = cs" using 2(2) [OF nr] by blast
  with nr show ?case by simp
qed

lemma trim_ends:
  "(trim u = [] \<or> \<not> is_ws (hd (trim u))) \<and> (trim u = [] \<or> \<not> is_ws (last (trim u)))"
proof -
  let ?v = "dropWhile is_ws u"
  let ?w = "dropWhile is_ws (rev ?v)"
  have t: "trim u = rev ?w" by (simp add: trim_def)
  have l: "?w = [] \<or> \<not> is_ws (hd ?w)" using hd_dropWhile [of is_ws "rev ?v"] by blast
  have v: "?v = [] \<or> \<not> is_ws (hd ?v)" using hd_dropWhile [of is_ws u] by blast
  have "?v = trim u @ rev (takeWhile is_ws (rev ?v))"
    unfolding trim_def by (metis rev_append rev_rev_ident takeWhile_dropWhile_id)
  then have "trim u \<noteq> [] \<Longrightarrow> hd ?v = hd (trim u) \<and> ?v \<noteq> []"
    by (metis append_is_Nil_conv hd_append2)
  with v have "trim u = [] \<or> \<not> is_ws (hd (trim u))" by metis
  moreover have "trim u = [] \<or> \<not> is_ws (last (trim u))"
    using l t by (metis last_rev rev_is_Nil_conv)
  ultimately show ?thesis by simp
qed

lemma trim_id:
  assumes "t = [] \<or> \<not> is_ws (hd t)" and "t = [] \<or> \<not> is_ws (last t)"
  shows "trim t = t"
proof (cases t)
  case Nil
  then show ?thesis by (simp add: trim_def)
next
  case (Cons c cs)
  with assms have h: "\<not> is_ws (hd t)" and l: "\<not> is_ws (last t)" by auto
  have d1: "dropWhile is_ws t = t" using h Cons by simp
  have rt: "rev t = last t # rev (butlast t)"
    using Cons by (metis append_butlast_last_id list.distinct(1) rev.simps(2) rev_append
        rev_rev_ident append_Cons append_Nil rev.simps(1))
  have d2: "dropWhile is_ws (rev t) = rev t"
    unfolding rt using l by simp
  show ?thesis unfolding trim_def d1 d2 by simp
qed

lemma trim_trim: "trim (trim u) = trim u"
  using trim_id trim_ends by blast

lemma set_trim: "set (trim u) \<subseteq> set u"
proof -
  have "set (trim u) \<subseteq> set (dropWhile is_ws u)"
    unfolding trim_def using set_dropWhileD by fastforce
  also have "\<dots> \<subseteq> set u" using set_dropWhileD by fastforce
  finally show ?thesis .
qed

lemma set_collapse: "set (collapse_newlines s) \<subseteq> insert LF (set s)"
proof (induction s rule: collapse_newlines.induct)
  case 1
  then show ?case by simp
next
  case (2 c cs)
  show ?case
  proof (cases "newline_run (c # cs)")
    case True
    have "set (dropWhile is_ws cs) \<subseteq> set cs" using set_dropWhileD by fastforce
    with True 2(1) show ?thesis by auto
  next
    case False
    with 2(2) show ?thesis by auto
  qed
qed

lemma set_standardize_bullets:
  "set (standardize_bullets prev s) \<subseteq> insert BULLET (insert SPACE (set s))"
proof (induction prev s rule: standardize_bullets.induct)
  case (1 prev)
  then show ?case by simp
next
  case (2 prev c cs)
  show ?case
  proof (cases "at_line_start prev \<and> (c = MINUS \<or> c = BULLET)")
    case True
    have "set (dropWhile is_ws cs) \<subseteq> set cs" using set_dropWhileD by fastforce
    with True 2(1) show ?thesis by auto
  next
    case False
    with 2(2) show ?thesis by auto
  qed
qed

lemma set_strip_heading_numbers: "set (strip_heading_numbers prev s) \<subseteq> set s"
proof (induction prev s rule: strip_heading_numbers.induct)
  case (1 prev)
  then show ?case by simp
next
  case (2 prev c cs)
  show ?case
  proof (cases "if at_line_start prev then match_heading_number (c # cs) else None")
    case None
    have "set (strip_heading_numbers (Some c) cs) \<subseteq> set cs" using 2(1) [OF None] .
    then show ?thesis using None by auto
  next
    case (Some n)
    have "set (drop n (c # cs)) \<subseteq> set (c # cs)" by (rule set_drop_subset)
    moreover have "set (strip_heading_numbers (Some (last (take n (c # cs)))) (drop n (c # cs)))
        \<subseteq> set (drop n (c # cs))" using 2(2) [OF Some] .
    ultimately show ?thesis using Some by auto
  qed
qed

lemma cleanup_no_star: "STAR \<notin> set (cleanup s)"
proof -
  have "STAR \<notin> set (remove_stars (remove_bold s))" by (simp add: remove_stars_def)
  then have "STAR \<notin> set (strip_heading_numbers None (remove_stars (remove_bold s)))"
    using set_strip_heading_numbers by blast
  then have "STAR \<notin> set (standardize_bullets None
      (strip_heading_numbers None (remove_stars (remove_bold s))))"
    using set_standardize_bullets by fastforce
  then have "STAR \<notin> set (collapse_newlines (standardize_bullets None
      (strip_heading_numbers None (remove_stars (remove_bold s)))))"
    using set_collapse by fastforce
  then show ?thesis unfolding cleanup_def using set_trim by blast
qed

subsection \<open>The leftmost block\<close>

text \<open>
  A match of the heading is decided by the code units it covers, so the text of the block
  found by the regular expression cannot occur before the place of the match: the string
  replacement hits the block that was matched.
\<close>

lemma digit_not_ws: "is_digit d \<Longrightarrow> \<not> is_ws d"
  by (auto simp: is_digit_def is_ws_def)

lemma hashes_then: 
  assumes "\<forall>c \<in> set hs. c = HASH" and "r = [] \<or> hd r \<noteq> HASH"
  shows "takeWhile (\<lambda>c. c = HASH) (hs @ r) = hs \<and> dropWhile (\<lambda>c. c = HASH) (hs @ r) = r"
  using assms by (cases r) (auto simp: takeWhile_append dropWhile_append)

lemma ws_then:
  assumes "\<forall>c \<in> set ws. is_ws c" and "r = [] \<or> \<not> is_ws (hd r)"
  shows "takeWhile is_ws (ws @ r) = ws \<and> dropWhile is_ws (ws @ r) = r"
  using assms by (cases r) (auto simp: takeWhile_append dropWhile_append)

lemma match_heading_number_SomeI:
  assumes "hs \<noteq> []" and "\<forall>c \<in> set hs. c = HASH" and "\<forall>c \<in> set ws. is_ws c"
    and "is_digit d" and "\<forall>c \<in> set ws2. is_ws c" and "rest = [] \<or> \<not> is_ws (hd rest)"
  shows "match_heading_number (hs @ ws @ d # DOT # ws2 @ rest)
     = Some (length hs + length ws + 2 + length ws2)"
proof -
  have nd: "\<not> is_ws d" using assms(4) by (rule digit_not_ws)
  have "d \<noteq> HASH" using assms(4) by (auto simp: is_digit_def)
  moreover have "\<not> is_ws HASH" by (simp add: is_ws_def)
  ultimately have "ws @ d # DOT # ws2 @ rest = [] \<or> hd (ws @ d # DOT # ws2 @ rest) \<noteq> HASH"
    using assms(3) by (cases ws) auto
  then have h: "takeWhile (\<lambda>c. c = HASH) (hs @ ws @ d # DOT # ws2 @ rest) = hs"
    "dropWhile (\<lambda>c. c = HASH) (hs @ ws @ d # DOT # ws2 @ rest) = ws @ d # DOT # ws2 @ rest"
    using hashes_then [OF assms(2)] by blast+
  have w: "takeWhile is_ws (ws @ d # DOT # ws2 @ rest) = ws"
    "dropWhile is_ws (ws @ d # DOT # ws2 @ rest) = d # DOT # ws2 @ rest"
    using ws_then [OF assms(3), of "d # DOT # ws2 @ rest"] nd by auto
  have w2: "takeWhile is_ws (ws2 @ rest) = ws2"
    using ws_then [OF assms(5,6)] by blast
  show ?thesis
    unfolding match_heading_number_def Let_def h w using assms(1,4) w2 by simp
qed

lemma match_heading_number_SomeD:
  assumes "match_heading_number s = Some m"
  shows "\<exists>hs ws d ws2 rest. s = hs @ ws @ d # DOT # ws2 @ rest \<and> hs \<noteq> []
     \<and> (\<forall>c \<in> set hs. c = HASH) \<and> (\<forall>c \<in> set ws. is_ws c) \<and> is_digit d
     \<and> (\<forall>c \<in> set ws2. is_ws c) \<and> (rest = [] \<or> \<not> is_ws (hd rest))
     \<and> m = length hs + length ws + 2 + length ws2"
proof -
  let ?h = "takeWhile (\<lambda>c. c = HASH) s"
  let ?r1 = "dropWhile (\<lambda>c. c = HASH) s"
  let ?w = "takeWhile is_ws ?r1"
  let ?r2 = "dropWhile is_ws ?r1"
  from assms have h: "?h \<noteq> []"
    by (auto simp: match_heading_number_def Let_def split: if_splits)
  from assms obtain d r3 where r2: "?r2 = d # DOT # r3" and d: "is_digit d"
    and m: "m = length ?h + length ?w + 2 + length (takeWhile is_ws r3)"
    by (auto simp: match_heading_number_def Let_def split: if_splits list.splits)
  have "s = ?h @ ?r1" by simp
  also have "?r1 = ?w @ ?r2" by simp
  also have "?r2 = d # DOT # takeWhile is_ws r3 @ dropWhile is_ws r3" using r2 by simp
  finally have s: "s = ?h @ ?w @ d # DOT # takeWhile is_ws r3 @ dropWhile is_ws r3" .
  have "\<forall>c \<in> set ?h. c = HASH" using set_takeWhileD by fastforce
  moreover have "\<forall>c \<in> set ?w. is_ws c" using set_takeWhileD by fastforce
  moreover have "\<forall>c \<in> set (takeWhile is_ws r3). is_ws c" using set_takeWhileD by fastforce
  moreover have "dropWhile is_ws r3 = [] \<or> \<not> is_ws (hd (dropWhile is_ws r3))"
    by (rule dropWhile_nonws_head)
  ultimately show ?thesis using s h d m by blast
qed

lemma action_items_nonws: "\<not> is_ws (hd (ascii ''Action Items:'' @ r))"
  by (simp add: ascii_def is_ws_def)

lemma match_action_heading_prefix:
  assumes "match_action_heading x = Some n" and "take n y = take n x"
  shows "match_action_heading y = Some n"
proof -
  let ?AI = "ascii ''Action Items:''"
  from assms(1) obtain m where m: "match_heading_number x = Some m"
    and st: "starts_with (drop m x) ?AI" and n: "n = m + length ?AI"
    by (auto simp: match_action_heading_def split: option.splits if_splits)
  from match_heading_number_SomeD [OF m] obtain hs ws d ws2 rest where
    x: "x = hs @ ws @ d # DOT # ws2 @ rest" and hs: "hs \<noteq> []" "\<forall>c \<in> set hs. c = HASH"
    and ws: "\<forall>c \<in> set ws. is_ws c" and d: "is_digit d" and ws2: "\<forall>c \<in> set ws2. is_ws c"
    and ml: "m = length hs + length ws + 2 + length ws2" by blast
  have dm: "drop m x = rest" using x ml by simp
  with st have "take (length ?AI) rest = ?AI" by (simp add: starts_with_def)
  then obtain rest' where rest: "rest = ?AI @ rest'"
    by (metis append_take_drop_id)
  let ?P = "hs @ ws @ d # DOT # ws2 @ ?AI"
  have lenP: "length ?P = n" using n ml by simp
  have tx: "take n x = ?P"
  proof -
    have "x = ?P @ rest'"
      using x rest by simp
    then have "take n x = take (length ?P) (?P @ rest')"
      using lenP by simp
    then show ?thesis by simp
  qed
  have "take n y @ drop n y = y" by (rule append_take_drop_id)
  then have "?P @ drop n y = y" unfolding assms(2) tx .
  then have y: "y = hs @ ws @ d # DOT # ws2 @ (?AI @ drop n y)" by simp
  have nw: "?AI @ drop n y = [] \<or> \<not> is_ws (hd (?AI @ drop n y))"
    using action_items_nonws by blast
  have my: "match_heading_number y = Some m"
    using match_heading_number_SomeI [OF hs ws d ws2 nw] y ml by simp
  have "drop m y = ?AI @ drop n y"
  proof -
    let ?Q = "hs @ ws @ d # DOT # ws2"
    have "y = ?Q @ (?AI @ drop n y)" using y by simp
    moreover have "length ?Q = m" using ml by simp
    ultimately have "drop m y = drop (length ?Q) (?Q @ (?AI @ drop n y))" by simp
    then show ?thesis by simp
  qed
  then have "starts_with (drop m y) ?AI" by (simp add: starts_with_def)
  with my n show ?thesis by (simp add: match_action_heading_def)
qed

lemma match_action_heading_bound:
  "match_action_heading s = Some n \<Longrightarrow> n \<le> length s"
proof -
  assume a: "match_action_heading s = Some n"
  let ?AI = "ascii ''Action Items:''"
  from a obtain m where m: "match_heading_number s = Some m"
    and st: "starts_with (drop m s) ?AI" and n: "n = m + length ?AI"
    by (auto simp: match_action_heading_def split: option.splits if_splits)
  from st have "take (length ?AI) (drop m s) = ?AI" by (simp only: starts_with_def)
  then have "length (take (length ?AI) (drop m s)) = length ?AI" by (rule arg_cong)
  then have "length ?AI \<le> length s - m" by simp
  with n match_heading_number_bounds [OF m] show ?thesis by auto
qed

lemma lazy_body_decomp:
  "lazy_body r = (b, r') \<Longrightarrow> r = b @ r' \<and> (r' = [] \<or> match_heading_number r' \<noteq> None)"
proof (induction r arbitrary: b r')
  case Nil
  then show ?case by simp
next
  case (Cons c cs)
  show ?case
  proof (cases "match_heading_number (c # cs) \<noteq> None")
    case True
    with Cons.prems show ?thesis by auto
  next
    case False
    obtain b1 r1 where l: "lazy_body cs = (b1, r1)" by (cases "lazy_body cs") auto
    with False Cons.prems have "b = c # b1" "r' = r1" by auto
    with Cons.IH [OF l] show ?thesis by simp
  qed
qed

lemma match_action_items_decomp:
  "match_action_items s = Some (pre, blk, post) \<Longrightarrow>
     s = pre @ blk @ post
     \<and> (post = [] \<or> match_heading_number post \<noteq> None)
     \<and> (\<exists>n. match_action_heading (blk @ post) = Some n \<and> n \<le> length blk)
     \<and> (\<forall>k < length pre. match_action_heading (drop k s) = None)"
proof (induction s arbitrary: pre)
  case Nil
  then show ?case by simp
next
  case (Cons c cs)
  show ?case
  proof (cases "match_action_heading (c # cs)")
    case (Some n)
    obtain b r where l: "lazy_body (drop n (c # cs)) = (b, r)"
      by (cases "lazy_body (drop n (c # cs))") auto
    with Some Cons.prems have p: "pre = []" "blk = take n (c # cs) @ b" "post = r" by auto
    from lazy_body_decomp [OF l] have d: "drop n (c # cs) = b @ r"
      and e: "r = [] \<or> match_heading_number r \<noteq> None" by auto
    have "take n (c # cs) @ drop n (c # cs) = c # cs" by (rule append_take_drop_id)
    then have s: "c # cs = blk @ post" unfolding d p(2,3) by simp
    have 1: "c # cs = pre @ blk @ post" using s p(1) by simp
    have 2: "post = [] \<or> match_heading_number post \<noteq> None" using e p(3) by simp
    have 3: "match_action_heading (blk @ post) = Some n" using Some unfolding s .
    have 4: "n \<le> length blk" using p(2) match_action_heading_bound [OF Some] by simp
    have 5: "\<forall>k < length pre. match_action_heading (drop k (c # cs)) = None"
      using p(1) by simp
    from 1 2 3 4 5 show ?thesis by blast
  next
    case None
    with Cons.prems obtain pre1 where m: "match_action_items cs = Some (pre1, blk, post)"
      and p: "pre = c # pre1" by (auto split: option.splits)
    from Cons.IH [OF m] have ih: "cs = pre1 @ blk @ post"
      "post = [] \<or> match_heading_number post \<noteq> None"
      "\<exists>n. match_action_heading (blk @ post) = Some n \<and> n \<le> length blk"
      "\<forall>k < length pre1. match_action_heading (drop k cs) = None" by auto
    have "\<forall>k < length pre. match_action_heading (drop k (c # cs)) = None"
    proof (intro allI impI)
      fix k assume "k < length pre"
      then show "match_action_heading (drop k (c # cs)) = None"
        using None ih(4) p by (cases k) auto
    qed
    with ih p show ?thesis by simp
  qed
qed

lemma find_first_leftmost:
  "\<forall>k < length pre. \<not> starts_with (drop k (pre @ blk @ post)) blk \<Longrightarrow>
     find_first (pre @ blk @ post) blk = Some (pre, post)"
proof (induction pre)
  case Nil
  show ?case
  proof (cases "blk @ post")
    case Nil
    then show ?thesis by simp
  next
    case (Cons c cs)
    have "starts_with (blk @ post) blk" by (simp add: starts_with_def)
    then have "find_first (c # cs) blk = Some ([], drop (length blk) (c # cs))"
      unfolding Cons by simp
    then have "find_first (blk @ post) blk = Some ([], drop (length blk) (blk @ post))"
      unfolding Cons .
    then show ?thesis by simp
  qed
next
  case (Cons c pre)
  have 0: "\<not> starts_with (c # pre @ blk @ post) blk" using Cons.prems by force
  have "\<forall>k < length pre. \<not> starts_with (drop k (pre @ blk @ post)) blk"
  proof (intro allI impI)
    fix k assume "k < length pre"
    then have "Suc k < length (c # pre)" by simp
    then have "\<not> starts_with (drop (Suc k) ((c # pre) @ blk @ post)) blk"
      using Cons.prems by blast
    then show "\<not> starts_with (drop k (pre @ blk @ post)) blk" by simp
  qed
  then have "find_first (pre @ blk @ post) blk = Some (pre, post)" by (rule Cons.IH)
  with 0 show ?case by simp
qed

lemma replace_first_block:
  assumes "match_action_items s = Some (pre, blk, post)"
  shows "replace_str s blk r = pre @ get_substitution blk pre post r @ post"
proof -
  note d = match_action_items_decomp [OF assms]
  note s = d [THEN conjunct1]
  from d [THEN conjunct2, THEN conjunct2, THEN conjunct1] obtain n where
    h: "match_action_heading (blk @ post) = Some n" and n: "n \<le> length blk" by blast
  have left: "\<forall>k < length pre. match_action_heading (drop k (pre @ blk @ post)) = None"
    using d [THEN conjunct2, THEN conjunct2, THEN conjunct2] unfolding s .
  have "\<forall>k < length pre. \<not> starts_with (drop k (pre @ blk @ post)) blk"
  proof (intro allI impI notI)
    fix k assume k: "k < length pre" and st: "starts_with (drop k (pre @ blk @ post)) blk"
    define y where "y = drop k (pre @ blk @ post)"
    from st have "take (length blk) y = blk" by (simp only: starts_with_def y_def)
    then have "take n (take (length blk) y) = take n blk" by (rule arg_cong)
    moreover have "take n (take (length blk) y) = take (min n (length blk)) y"
      by (rule take_take)
    moreover have "min n (length blk) = n" using n by simp
    ultimately have "take n y = take n blk" by simp
    also have "\<dots> = take n (blk @ post)" using n by simp
    finally have "match_action_heading y = Some n"
      by (rule match_action_heading_prefix [OF h])
    moreover have "match_action_heading y = None"
      unfolding y_def using left [rule_format, OF k] .
    ultimately show False by simp
  qed
  then have ff: "find_first (pre @ blk @ post) blk = Some (pre, post)"
    by (rule find_first_leftmost)
  show ?thesis unfolding replace_str_def s ff by simp
qed

lemma match_action_heading_Nil: "match_action_heading [] = None"
  by (simp add: match_action_heading_def match_heading_number_def)

lemma match_action_items_None_iff:
  "match_action_items s = None \<longleftrightarrow> (\<forall>k. match_action_heading (drop k s) = None)"
proof (induction s)
  case Nil
  then show ?case by (simp add: match_action_heading_Nil)
next
  case (Cons c cs)
  show ?case
  proof
    assume a: "match_action_items (c # cs) = None"
    then have h: "match_action_heading (c # cs) = None"
      by (auto split: option.splits prod.splits)
    with a have "match_action_items cs = None" by (auto split: option.splits)
    then have t: "\<forall>k. match_action_heading (drop k cs) = None" using Cons.IH by simp
    show "\<forall>k. match_action_heading (drop k (c # cs)) = None"
    proof
      fix k
      show "match_action_heading (drop k (c # cs)) = None"
        using h t by (cases k) auto
    qed
  next
    assume a: "\<forall>k. match_action_heading (drop k (c # cs)) = None"
    from a [rule_format, of 0] have h: "match_action_heading (c # cs) = None" by simp
    have "\<forall>k. match_action_heading (drop k cs) = None"
    proof
      fix k
      from a [rule_format, of "Suc k"] show "match_action_heading (drop k cs) = None" by simp
    qed
    then have "match_action_items cs = None" using Cons.IH by simp
    with h show "match_action_items (c # cs) = None" by simp
  qed
qed

lemma lazy_body_no_heading:
  "lazy_body r = (b, r') \<Longrightarrow> j < length b \<Longrightarrow> match_heading_number (drop j r) = None"
proof (induction r arbitrary: b r' j)
  case Nil
  then show ?case by simp
next
  case (Cons c cs)
  show ?case
  proof (cases "match_heading_number (c # cs) \<noteq> None")
    case True
    with Cons.prems show ?thesis by auto
  next
    case False
    obtain b1 r1 where l: "lazy_body cs = (b1, r1)" by (cases "lazy_body cs") auto
    with False Cons.prems(1) have b: "b = c # b1" by auto
    show ?thesis
    proof (cases j)
      case 0
      with False show ?thesis by simp
    next
      case (Suc j1)
      with Cons.prems(2) b have "j1 < length b1" by simp
      from Cons.IH [OF l this] Suc show ?thesis by simp
    qed
  qed
qed

lemma match_action_items_body:
  "match_action_items s = Some (pre, blk, post) \<Longrightarrow>
     \<exists>n. match_action_heading (blk @ post) = Some n \<and> n \<le> length blk
       \<and> (\<forall>j. n \<le> j \<and> j < length blk \<longrightarrow>
             match_heading_number (drop j (blk @ post)) = None)"
proof (induction s arbitrary: pre)
  case Nil
  then show ?case by simp
next
  case (Cons c cs)
  show ?case
  proof (cases "match_action_heading (c # cs)")
    case (Some n)
    obtain b r where l: "lazy_body (drop n (c # cs)) = (b, r)"
      by (cases "lazy_body (drop n (c # cs))") auto
    with Some Cons.prems have p: "blk = take n (c # cs) @ b" "post = r" by auto
    from lazy_body_decomp [OF l] have d: "drop n (c # cs) = b @ r" by simp
    have "take n (c # cs) @ drop n (c # cs) = c # cs" by (rule append_take_drop_id)
    then have s: "c # cs = blk @ post" unfolding d p by simp
    have nl: "n \<le> length (c # cs)" by (rule match_action_heading_bound [OF Some])
    have 1: "match_action_heading (blk @ post) = Some n" using Some unfolding s .
    have 2: "length blk = n + length b" using p(1) nl by simp
    have 3: "\<forall>j. n \<le> j \<and> j < length blk \<longrightarrow>
             match_heading_number (drop j (blk @ post)) = None"
    proof (intro allI impI)
      fix j assume j: "n \<le> j \<and> j < length blk"
      then have "j - n < length b" using 2 by auto
      from lazy_body_no_heading [OF l this]
      have "match_heading_number (drop (j - n) (drop n (c # cs))) = None" .
      moreover have "drop (j - n) (drop n (c # cs)) = drop j (c # cs)" using j by simp
      ultimately show "match_heading_number (drop j (blk @ post)) = None"
        unfolding s by simp
    qed
    from 1 2 3 show ?thesis by auto
  next
    case None
    with Cons.prems obtain pre1 where m: "match_action_items cs = Some (pre1, blk, post)"
      by (auto split: option.splits)
    from Cons.IH [OF m] show ?thesis .
  qed
qed

lemma match_action_heading_number:
  "match_action_heading y \<noteq> None \<Longrightarrow> match_heading_number y \<noteq> None"
  by (auto simp: match_action_heading_def split: option.splits)

lemma later_headings_in_post:
  assumes "s = pre @ blk @ post"
    and "\<forall>k < length pre. match_action_heading (drop k s) = None"
    and "\<forall>j. n \<le> j \<and> j < length blk \<longrightarrow> match_heading_number (drop j (blk @ post)) = None"
    and "match_action_heading (drop k s) \<noteq> None"
  shows "length pre \<le> k \<and> (k < length pre + n \<or> length pre + length blk \<le> k)"
proof -
  have 1: "length pre \<le> k" using assms(2,4) by (meson not_le)
  have "\<not> (length pre + n \<le> k \<and> k < length pre + length blk)"
  proof
    assume a: "length pre + n \<le> k \<and> k < length pre + length blk"
    define j where "j = k - length pre"
    have j: "n \<le> j \<and> j < length blk" using a j_def by auto
    have "drop k s = drop j (blk @ post)" unfolding assms(1) j_def using 1 by simp
    then have "match_heading_number (drop k s) = None" using assms(3) j by simp
    with assms(4) show False using match_action_heading_number by blast
  qed
  with 1 show ?thesis by auto
qed

subsection \<open>A block between other text\<close>




lemma trim_append_ws: "\<forall>c \<in> set gap. is_ws c \<Longrightarrow> trim (x @ gap) = trim x"
proof (cases "\<forall>c \<in> set x. is_ws c")
  case True
  assume "\<forall>c \<in> set gap. is_ws c"
  with True have "\<forall>c \<in> set (x @ gap). is_ws c" by auto
  then have "trim (x @ gap) = []" by (rule trim_blank)
  moreover have "trim x = []" using True by (rule trim_blank)
  ultimately show ?thesis by simp
next
  case False
  assume g: "\<forall>c \<in> set gap. is_ws c"
  from False obtain y where "y \<in> set x" "\<not> is_ws y" by blast
  then have d1: "dropWhile is_ws (x @ gap) = dropWhile is_ws x @ gap"
    by (rule dropWhile_append1)
  have d2: "dropWhile is_ws (rev gap @ rev (dropWhile is_ws x))
      = dropWhile is_ws (rev (dropWhile is_ws x))"
    by (rule dropWhile_append2) (use g in auto)
  show ?thesis unfolding trim_def d1 rev_append d2 ..
qed





lemma cleanup_same:
  assumes "STAR \<notin> set t" and "no_heading_at_line_start None t"
    and "bullets_standard None t"
    and "\<And>k. \<not> newline_run (drop k t)" and "trim t = t"
  shows "cleanup t = t"
proof -
  have c: "collapse_newlines t = t" using assms(4) by (rule collapse_newlines_id)
  have "cleanup t = trim (collapse_newlines (standardize_bullets None t))"
    using assms(1,2)
    by (simp add: cleanup_def remove_bold_id remove_stars_id strip_heading_numbers_same)
  moreover have "trim (collapse_newlines (standardize_bullets None t)) = t"
    using standardize_bullets_same [OF assms(3)]
  proof
    assume "standardize_bullets None t = t"
    then show ?thesis using c assms(5) by simp
  next
    assume a: "standardize_bullets None t = t @ [SPACE] \<and> t \<noteq> [] \<and> last t = BULLET"
    then have t: "t = butlast t @ [BULLET]" by (metis append_butlast_last_id)
    have nb: "\<not> is_ws BULLET" by (simp add: is_ws_def)
    have "collapse_newlines (butlast t @ BULLET # [SPACE])
        = collapse_newlines (butlast t @ [BULLET]) @ collapse_newlines [SPACE]"
      using nb by (rule collapse_append_nonws)
    moreover have "collapse_newlines [SPACE] = [SPACE]" by (simp add: newline_run_def)
    moreover have "butlast t @ BULLET # [SPACE] = t @ [SPACE]" using t
      by (metis append.assoc append_Cons append_Nil)
    ultimately have "collapse_newlines (t @ [SPACE]) = t @ [SPACE]" using c t by metis
    moreover have "trim (t @ [SPACE]) = trim t"
      by (rule trim_append_ws) (simp add: is_ws_def)
    ultimately show ?thesis using a assms(5) by simp
  qed
  ultimately show ?thesis by simp
qed

section \<open>Properties\<close>

text \<open>
  C9: \<open>formatSummary\<close> of the empty string, of \<open>null\<close> and of \<open>undefined\<close> is the empty
  string.
\<close>

theorem formatSummary_empty:
  "formatSummary (Str []) = Inr [] \<and> formatSummary Null = Inr []
     \<and> formatSummary Undefined = Inr []"
  by (simp add: formatSummary_def)




text \<open>
  C2: an empty cell of a row that passes the checks is not rendered as \<open>N/A\<close>. The
  empty cells are discarded when the row is parsed, so the cell after the empty one
  moves under its header: \<open>| Write docs |  | Bob |\<close> under the headers Task and Owner
  gives Owner: Bob.
\<close>

theorem empty_cell_not_rendered:
  "parse_row (ascii ''| Write docs |  | Bob |'') = map ascii [''Write docs'', ''Bob'']
   \<and> formatSummary (Str empty_cell_example) = Inr (join_lines
     [ascii ''Action Items:'', [],
      [BULLET] @ ascii '' Task: Write docs'', ascii ''    Owner: Bob''])"
  by (simp add: empty_cell_example_def eval_defs)

text \<open>
  C3: \<open>formatSummary\<close> returns a string for every argument, and when there is no Action
  Items block, or the block has no pipe, or its table is not accepted, the result is the
  cleanup of the input.
\<close>

theorem formatSummary_never_raises:
  "(\<exists>t. formatSummary v = Inr t) \<and>
   (match_action_items s = None
      \<or> (\<exists>pre blk post. match_action_items s = Some (pre, blk, post)
            \<and> (\<not> includes_str blk [PIPE] \<or> table_replacement blk = Inr None))
    \<longrightarrow> formatSummary (Str s) = Inr (cleanup s))"
proof
  show "\<exists>t. formatSummary v = Inr t"
  proof (cases v)
    case (Str x)
    show ?thesis
    proof (cases "match_action_items x")
      case None
      with Str show ?thesis by (simp add: formatSummary_def)
    next
      case (Some m)
      obtain pre blk post where m: "m = (pre, blk, post)" by (cases m) auto
      show ?thesis
      proof (cases "table_replacement blk")
        case (Inl e)
        then show ?thesis using table_replacement_no_error by blast
      next
        case (Inr r)
        with Str Some m show ?thesis
          by (cases r) (simp_all add: formatSummary_def)
      qed
    qed
  qed (simp_all add: formatSummary_def)
next
  show "match_action_items s = None
      \<or> (\<exists>pre blk post. match_action_items s = Some (pre, blk, post)
            \<and> (\<not> includes_str blk [PIPE] \<or> table_replacement blk = Inr None))
    \<longrightarrow> formatSummary (Str s) = Inr (cleanup s)"
    by (auto simp: formatSummary_def cleanup_Nil)
qed

text \<open>
  Witness for C3: a summary without an Action Items section, and a block whose table is
  not accepted.
\<close>

theorem formatSummary_never_raises_witness:
  "match_action_items plain_summary = None \<and>
   formatSummary (Str plain_summary) = Inr (join_lines
     [ascii ''Summary'', [BULLET] @ ascii '' point one'', [], ascii ''Notes'']) \<and>
   match_action_items short_row = Some ([], short_row, []) \<and>
   table_replacement short_row = Inr None \<and>
   formatSummary (Str short_row) = Inr (cleanup short_row)"
  using formatSummary_never_raises [of "Str plain_summary" plain_summary]
    formatSummary_never_raises [of "Str short_row" short_row]
  by (simp add: plain_summary_def short_row_def eval_defs)

text \<open>
  C4: when a separator row is found after a header row and some parsed data row has a
  number of cells other than the number of headers, the block is not replaced: the result
  is the cleanup of the input.
\<close>

theorem mismatched_row_keeps_block:
  assumes "match_action_items s = Some (pre, blk, post)"
    and "tableLines = slice_from 1 (split_on LF (trim blk))"
    and "findIndex (\<lambda>l. includes_str l (ascii ''---'')) tableLines = k" and "0 < k"
    and "js_index tableLines (k - 1) = Some headerLine"
    and "r \<in> set (parse_rows (slice_from (k + 1) tableLines))"
    and "length r \<noteq> length (parse_headers headerLine)"
  shows "formatSummary (Str s) = Inr (cleanup s)"
proof -
  have "\<not> list_all (\<lambda>r. length r = length (parse_headers headerLine))
          (parse_rows (slice_from (k + 1) tableLines))"
    using assms(6,7) by (auto simp: list_all_iff)
  then have "table_replacement blk = Inr None"
    using assms(2-5) by (simp add: table_replacement_def Let_def)
  then show ?thesis using assms(1) by (simp add: formatSummary_def cleanup_Nil)
qed

text \<open>Witness for C4: three headers and a row of two cells.\<close>

theorem mismatched_row_keeps_block_witness:
  "parse_headers (ascii ''| Task | Owner | Due |'') = map ascii [''Task'', ''Owner'', ''Due'']
   \<and> parse_rows [ascii ''| Fix bug | Alice |''] = [map ascii [''Fix bug'', ''Alice'']]
   \<and> formatSummary (Str short_row) = Inr (join_lines (map ascii
     [''Action Items:'', ''| Task | Owner | Due |'', ''| --- | --- | --- |'',
      ''| Fix bug | Alice |'']))"
  using mismatched_row_keeps_block [of short_row "[]" short_row "[]"
      "map ascii [''| Task | Owner | Due |'', ''| --- | --- | --- |'', ''| Fix bug | Alice |'']"
      1 "ascii ''| Task | Owner | Due |''" "map ascii [''Fix bug'', ''Alice'']"]
  by (simp add: short_row_def eval_defs)

text \<open>
  C5, as stated, fails: a data row after a blank line is rendered like the rows before
  it, and a line without a pipe after a blank line is a row of one cell, which keeps the
  table from being replaced.
\<close>

theorem row_after_blank_line_rendered:
  "formatSummary (Str blank_line_example) = Inr (join_lines
     [ascii ''Action Items:'', [],
      [BULLET] @ ascii '' Task: Fix bug'', ascii ''    Owner: Alice'', [],
      [BULLET] @ ascii '' Task: Write docs'', ascii ''    Owner: Bob''])
   \<and> formatSummary (Str trailing_note_example) = Inr (join_lines
     [ascii ''Action Items:'', ascii ''| Task | Owner |'', ascii ''| --- | --- |'',
      ascii ''| Fix bug | Alice |'', [], ascii ''Thanks all''])"
  by (simp add: blank_line_example_def trailing_note_example_def eval_defs)

text \<open>
  C5, amended: every line after the separator row, up to the end of the block, is parsed
  as a data row. When the table is accepted, the new content is the heading line followed
  by the rendering of the rows parsed from all these lines, and each of the lines has
  either no cell or as many cells as there are headers. A line of white space only gives
  no row, and the rows after it are parsed and rendered like the rows before it; a line
  without a pipe that is not blank gives a row of one cell.
\<close>

theorem rows_run_to_block_end:
  "(table_replacement blk = Inr (Some newContent)
      \<and> tableLines = slice_from 1 (split_on LF (trim blk))
      \<and> k = findIndex (\<lambda>l. includes_str l (ascii ''---'')) tableLines
      \<and> js_index tableLines (k - 1) = Some headerLine \<longrightarrow>
        newContent =
          (case split_on LF (trim blk) of [] \<Rightarrow> ascii ''undefined'' | h # _ \<Rightarrow> h) @ [LF]
          @ render_rows (parse_headers headerLine)
              (parse_rows (slice_from (k + 1) tableLines))
      \<and> (\<forall>l \<in> set (slice_from (k + 1) tableLines).
           parse_row l = [] \<or> length (parse_row l) = length (parse_headers headerLine)))
   \<and> ((\<forall>c \<in> set blank. is_ws c) \<longrightarrow>
        parse_rows (xs @ blank # ys) = parse_rows xs @ parse_rows ys
      \<and> render_rows hs (parse_rows (xs @ blank # ys))
          = render_rows hs (parse_rows xs) @ render_rows hs (parse_rows ys))
   \<and> (PIPE \<notin> set l \<and> trim l \<noteq> [] \<longrightarrow>
        parse_rows (xs @ l # ys) = parse_rows xs @ [trim l] # parse_rows ys)"
proof (intro conjI impI)
  assume a: "table_replacement blk = Inr (Some newContent)
      \<and> tableLines = slice_from 1 (split_on LF (trim blk))
      \<and> k = findIndex (\<lambda>l. includes_str l (ascii ''---'')) tableLines
      \<and> js_index tableLines (k - 1) = Some headerLine"
  from a table_replacement_Some [of blk newContent tableLines k]
  have r: "list_all (\<lambda>r. length r = length (parse_headers headerLine))
          (parse_rows (slice_from (k + 1) tableLines))"
    and n: "newContent =
          (case split_on LF (trim blk) of [] \<Rightarrow> ascii ''undefined'' | h # _ \<Rightarrow> h) @ [LF]
          @ render_rows (parse_headers headerLine)
              (parse_rows (slice_from (k + 1) tableLines))" by auto
  show "newContent =
          (case split_on LF (trim blk) of [] \<Rightarrow> ascii ''undefined'' | h # _ \<Rightarrow> h) @ [LF]
          @ render_rows (parse_headers headerLine)
              (parse_rows (slice_from (k + 1) tableLines))" by (rule n)
  show "\<forall>l \<in> set (slice_from (k + 1) tableLines).
           parse_row l = [] \<or> length (parse_row l) = length (parse_headers headerLine)"
    using r by (auto simp: parse_rows_def list_all_iff)
next
  assume b: "\<forall>c \<in> set blank. is_ws c"
  then show p: "parse_rows (xs @ blank # ys) = parse_rows xs @ parse_rows ys"
    by (simp add: parse_rows_def parse_row_blank)
  show "render_rows hs (parse_rows (xs @ blank # ys))
          = render_rows hs (parse_rows xs) @ render_rows hs (parse_rows ys)"
    unfolding p by (rule render_rows_append)
next
  assume "PIPE \<notin> set l \<and> trim l \<noteq> []"
  then show "parse_rows (xs @ l # ys) = parse_rows xs @ [trim l] # parse_rows ys"
    by (simp add: parse_rows_def parse_row_no_pipe)
qed

text \<open>
  Witness for C5: the accepted table with a blank line between its rows, the rendering of
  the rows around the blank line, and the rows around a remark.
\<close>

theorem rows_run_to_block_end_witness:
  "table_replacement blank_line_example = Inr (Some (join_lines
        [ascii ''## 3. Action Items:'', [],
         [BULLET] @ ascii '' Task: Fix bug'', ascii ''    Owner: Alice'', [],
         [BULLET] @ ascii '' Task: Write docs'', ascii ''    Owner: Bob'', []]))
   \<and> render_rows (map ascii [''Task'', ''Owner''])
        (parse_rows [ascii ''| Fix bug | Alice |'', [], ascii ''| Write docs | Bob |''])
     = [LF, BULLET] @ ascii '' Task: Fix bug'' @ [LF] @ ascii ''    Owner: Alice'' @ [LF]
       @ [LF, BULLET] @ ascii '' Task: Write docs'' @ [LF] @ ascii ''    Owner: Bob'' @ [LF]
   \<and> parse_rows [ascii ''| Fix bug | Alice |'', [], ascii ''| Write docs | Bob |'']
     = [map ascii [''Fix bug'', ''Alice''], map ascii [''Write docs'', ''Bob'']]
   \<and> parse_rows [ascii ''| Fix bug | Alice |'', ascii '' Thanks all'',
                  ascii ''| Write docs | Bob |'']
     = [map ascii [''Fix bug'', ''Alice''], [ascii ''Thanks all''],
        map ascii [''Write docs'', ''Bob'']]"
  using rows_run_to_block_end [of blank_line_example
      "join_lines
        [ascii ''## 3. Action Items:'', [],
         [BULLET] @ ascii '' Task: Fix bug'', ascii ''    Owner: Alice'', [],
         [BULLET] @ ascii '' Task: Write docs'', ascii ''    Owner: Bob'', []]"
      "[ascii ''| Task | Owner |'', ascii ''| --- | --- |'', ascii ''| Fix bug | Alice |'', [],
        ascii ''| Write docs | Bob |'']"
      1 "ascii ''| Task | Owner |''"
      "[]" "[ascii ''| Fix bug | Alice |'']" "[ascii ''| Write docs | Bob |'']"
      "map ascii [''Task'', ''Owner'']" "ascii '' Thanks all''"]
  by (simp add: blank_line_example_def eval_defs)

text \<open>
  C6, as stated, fails, in three ways. In each input the table is accepted and replaced.
  An indented list item comes to the start of a line when the blank lines before it are
  collapsed, and the second application turns it into a bullet. An indented numbered
  heading comes to the start of a line in the same way, and the second application
  removes its numbering. An Action Items heading in the middle of a line keeps its
  numbering, and the second application finds a block that runs over the next section,
  whose heading has lost its numbering, and replaces it by the rows of that section's
  table.
\<close>

theorem formatSummary_twice_differs:
  "formatSummary (Str indented_item_example) = Inr (join_lines
     [ascii ''Notes:'', [], ascii ''- item'', ascii ''Action Items:'', [],
      [BULLET] @ ascii '' Task: Fix bug'', ascii ''    Owner: Alice''])
   \<and> formatSummary (Str (join_lines
     [ascii ''Notes:'', [], ascii ''- item'', ascii ''Action Items:'', [],
      [BULLET] @ ascii '' Task: Fix bug'', ascii ''    Owner: Alice''])) = Inr (join_lines
     [ascii ''Notes:'', [], [BULLET] @ ascii '' item'', ascii ''Action Items:'', [],
      [BULLET] @ ascii '' Task: Fix bug'', ascii ''    Owner: Alice''])
   \<and> formatSummary (Str indented_heading_example) = Inr (join_lines
     [ascii ''Notes:'', [], ascii ''## 2. Next'', ascii ''Action Items:'', [],
      [BULLET] @ ascii '' Task: Fix bug'', ascii ''    Owner: Alice''])
   \<and> formatSummary (Str (join_lines
     [ascii ''Notes:'', [], ascii ''## 2. Next'', ascii ''Action Items:'', [],
      [BULLET] @ ascii '' Task: Fix bug'', ascii ''    Owner: Alice''])) = Inr (join_lines
     [ascii ''Notes:'', [], ascii ''Next'', ascii ''Action Items:'', [],
      [BULLET] @ ascii '' Task: Fix bug'', ascii ''    Owner: Alice''])
   \<and> formatSummary (Str inline_block_example) = Inr (join_lines
     [ascii ''See ## 3. Action Items:'', [],
      [BULLET] @ ascii '' Task: Fix bug'', ascii ''    Owner: Alice'',
      ascii ''Action Items:'', ascii ''| Task | Owner |'', ascii ''| --- | --- |'',
      ascii ''| Write docs | Bob |''])
   \<and> formatSummary (Str (join_lines
     [ascii ''See ## 3. Action Items:'', [],
      [BULLET] @ ascii '' Task: Fix bug'', ascii ''    Owner: Alice'',
      ascii ''Action Items:'', ascii ''| Task | Owner |'', ascii ''| --- | --- |'',
      ascii ''| Write docs | Bob |''])) = Inr (join_lines
     [ascii ''See ## 3. Action Items:'', [],
      [BULLET] @ ascii '' Task: Write docs'', ascii ''    Owner: Bob''])"
  by (simp add: indented_item_example_def indented_heading_example_def
      inline_block_example_def eval_defs)

text \<open>
  C6, amended: when in the result \<open>t\<close> of \<open>formatSummary\<close> no numbered heading starts a
  line, every \<open>-\<close> or \<open>\<bullet>\<close> that starts a line is a \<open>\<bullet>\<close> that ends the text or is followed
  by exactly one space, and no table of an Action Items block is accepted,
  \<open>formatSummary\<close> of \<open>t\<close> is \<open>t\<close> again.
\<close>

theorem formatSummary_twice:
  assumes "formatSummary (Str s) = Inr t"
    and "no_heading_at_line_start None t" and "bullets_standard None t"
    and "match_action_items t = None
      \<or> (\<exists>pre blk post. match_action_items t = Some (pre, blk, post)
            \<and> (\<not> includes_str blk [PIPE] \<or> table_replacement blk = Inr None))"
  shows "formatSummary (Str t) = Inr t"
proof -
  have c: "formatSummary (Str t) = Inr (cleanup t)"
    using assms(4) by (auto simp: formatSummary_def cleanup_Nil)
  show ?thesis
  proof (cases "t = []")
    case True
    then show ?thesis by (simp add: formatSummary_def)
  next
    case False
    with formatSummary_cases [OF assms(1)] obtain u where u: "t = cleanup u" by blast
    have "cleanup t = t"
    proof (rule cleanup_same)
      show "STAR \<notin> set t" using u cleanup_no_star by simp
      show "\<And>k. \<not> newline_run (drop k t)" using u cleanup_no_run by simp
      show "trim t = t" using u by (simp add: cleanup_def trim_trim)
    qed (use assms in auto)
    with c show ?thesis by simp
  qed
qed

text \<open>
  Witness for C6: the reformatted table of \<open>full_rows_example\<close>, a text that ends with
  a bullet, and a reformatted table in which a numbered heading matches in the middle of
  a line.
\<close>

theorem formatSummary_twice_witness:
  "formatSummary (Str full_rows_example) = Inr (join_lines
     [ascii ''Action Items:'', [],
      [BULLET] @ ascii '' Task: Fix bug'', ascii ''    Owner: Alice'', [],
      [BULLET] @ ascii '' Task: Write docs'', ascii ''    Owner: Bob''])
   \<and> formatSummary (Str (join_lines
     [ascii ''Action Items:'', [],
      [BULLET] @ ascii '' Task: Fix bug'', ascii ''    Owner: Alice'', [],
      [BULLET] @ ascii '' Task: Write docs'', ascii ''    Owner: Bob''])) = Inr (join_lines
     [ascii ''Action Items:'', [],
      [BULLET] @ ascii '' Task: Fix bug'', ascii ''    Owner: Alice'', [],
      [BULLET] @ ascii '' Task: Write docs'', ascii ''    Owner: Bob''])
   \<and> formatSummary (Str trailing_bullet_example)
       = Inr (join_lines [ascii ''To do:'', [BULLET]])
   \<and> formatSummary (Str (join_lines [ascii ''To do:'', [BULLET]]))
       = Inr (join_lines [ascii ''To do:'', [BULLET]])
   \<and> formatSummary (Str hash_cell_example) = Inr (join_lines
     [ascii ''Action Items:'', [],
      [BULLET] @ ascii '' T: a#'', ascii ''    1.x: v''])
   \<and> match_heading_number (ascii ''#'' @ [LF] @ ascii ''    1.x: v'') \<noteq> None
   \<and> formatSummary (Str (join_lines
     [ascii ''Action Items:'', [],
      [BULLET] @ ascii '' T: a#'', ascii ''    1.x: v''])) = Inr (join_lines
     [ascii ''Action Items:'', [],
      [BULLET] @ ascii '' T: a#'', ascii ''    1.x: v''])"
  using formatSummary_twice [of trailing_bullet_example
      "join_lines [ascii ''To do:'', [BULLET]]"]
    formatSummary_twice [of full_rows_example "join_lines
     [ascii ''Action Items:'', [],
      [BULLET] @ ascii '' Task: Fix bug'', ascii ''    Owner: Alice'', [],
      [BULLET] @ ascii '' Task: Write docs'', ascii ''    Owner: Bob'']"]
    formatSummary_twice [of hash_cell_example "join_lines
     [ascii ''Action Items:'', [],
      [BULLET] @ ascii '' T: a#'', ascii ''    1.x: v'']"]
  by (simp add: full_rows_example_def hash_cell_example_def trailing_bullet_example_def
      eval_defs)

text \<open>
  C7: a block is found exactly when an Action Items heading matches somewhere in the
  text. The block found is the leftmost one; no numbered heading starts inside it after
  its own heading, so every other Action Items heading of the text that does not overlap
  the heading of the block lies in the text after the block; the block ends at the next
  numbered heading or at the end of the text; and the text before and after the block
  goes to the cleanup as it is: only the block itself is replaced, when its table is
  accepted.
\<close>

theorem only_first_block_replaced:
  "(match_action_items s = None \<longleftrightarrow> (\<forall>k. match_action_heading (drop k s) = None))
   \<and> (match_action_items s = Some (pre, blk, post) \<longrightarrow>
        s = pre @ blk @ post
      \<and> (\<exists>n. match_action_heading (blk @ post) = Some n \<and> n \<le> length blk
           \<and> (\<forall>j. n \<le> j \<and> j < length blk \<longrightarrow>
                 match_heading_number (drop j (blk @ post)) = None)
           \<and> (\<forall>k. match_action_heading (drop k s) \<noteq> None \<longrightarrow>
                 length pre \<le> k \<and> (k < length pre + n \<or> length pre + length blk \<le> k)))
      \<and> (post = [] \<or> match_heading_number post \<noteq> None)
      \<and> formatSummary (Str s) = Inr (cleanup (pre @
           (case table_replacement blk of
              Inr (Some newContent) \<Rightarrow>
                if includes_str blk [PIPE] then get_substitution blk pre post newContent
                else blk
            | _ \<Rightarrow> blk) @ post)))"
proof (intro conjI impI)
  show "match_action_items s = None \<longleftrightarrow> (\<forall>k. match_action_heading (drop k s) = None)"
    by (rule match_action_items_None_iff)
next
  assume m: "match_action_items s = Some (pre, blk, post)"
  note d = match_action_items_decomp [OF m]
  show s: "s = pre @ blk @ post" by (rule d [THEN conjunct1])
  show "post = [] \<or> match_heading_number post \<noteq> None"
    by (rule d [THEN conjunct2, THEN conjunct1])
  have left: "\<forall>k < length pre. match_action_heading (drop k s) = None"
    by (rule d [THEN conjunct2, THEN conjunct2, THEN conjunct2])
  from match_action_items_body [OF m] obtain n where
    h: "match_action_heading (blk @ post) = Some n" and n: "n \<le> length blk"
    and body: "\<forall>j. n \<le> j \<and> j < length blk \<longrightarrow>
                 match_heading_number (drop j (blk @ post)) = None" by blast
  have "\<forall>k. match_action_heading (drop k s) \<noteq> None \<longrightarrow>
          length pre \<le> k \<and> (k < length pre + n \<or> length pre + length blk \<le> k)"
    using later_headings_in_post [OF s left body] by blast
  with h n body show "\<exists>n. match_action_heading (blk @ post) = Some n \<and> n \<le> length blk
           \<and> (\<forall>j. n \<le> j \<and> j < length blk \<longrightarrow>
                 match_heading_number (drop j (blk @ post)) = None)
           \<and> (\<forall>k. match_action_heading (drop k s) \<noteq> None \<longrightarrow>
                 length pre \<le> k \<and> (k < length pre + n \<or> length pre + length blk \<le> k))"
    by blast
  have ne: "s \<noteq> []" using m by auto
  have bne: "includes_str blk [PIPE] \<Longrightarrow> blk \<noteq> []" by (auto simp: starts_with_def)
  show "formatSummary (Str s) = Inr (cleanup (pre @
          (case table_replacement blk of
             Inr (Some newContent) \<Rightarrow>
               if includes_str blk [PIPE] then get_substitution blk pre post newContent
               else blk
           | _ \<Rightarrow> blk) @ post))"
  proof (cases "table_replacement blk")
    case (Inl e)
    then show ?thesis using table_replacement_no_error by blast
  next
    case (Inr r)
    show ?thesis
    proof (cases r)
      case None
      have "formatSummary (Str s) = Inr (cleanup s)"
        using Inr None m ne by (simp add: formatSummary_def)
      then show ?thesis using Inr None s by simp
    next
      case (Some nc)
      show ?thesis
      proof (cases "includes_str blk [PIPE]")
        case True
        then have "formatSummary (Str s) = Inr (cleanup (replace_str s blk nc))"
          using Inr Some m ne bne by (simp add: formatSummary_def)
        then show ?thesis
          using Inr Some True replace_first_block [OF m, of nc] by simp
      next
        case False
        then have "formatSummary (Str s) = Inr (cleanup s)"
          using Inr Some m ne by (simp add: formatSummary_def)
        then show ?thesis using Inr Some False s by simp
      qed
    qed
  qed
qed

text \<open>
  Witness for C7: of two Action Items sections with a table each, the first is replaced
  and the second keeps its table; and a block ends at a numbered heading in the middle of
  a line, so that the row after that heading is not a row of its table.
\<close>

theorem only_first_block_replaced_witness:
  "match_action_items two_blocks_example = Some ([],
     join_lines (map ascii [''## 3. Action Items:'', ''| Task | Owner |'', ''| --- | --- |'',
      ''| Fix bug | Alice |'', '''']),
     join_lines (map ascii [''## 4. Action Items:'', ''| Task | Owner |'', ''| --- | --- |'',
      ''| Write docs | Bob |'']))
   \<and> formatSummary (Str two_blocks_example) = Inr (join_lines
     [ascii ''Action Items:'', [],
      [BULLET] @ ascii '' Task: Fix bug'', ascii ''    Owner: Alice'',
      ascii ''Action Items:'', ascii ''| Task | Owner |'', ascii ''| --- | --- |'',
      ascii ''| Write docs | Bob |''])
   \<and> match_action_items inline_heading_example = Some ([],
     join_lines (map ascii [''## 3. Action Items:'', ''| T |'', ''| --- |'', ''| a |'',
      ''| '']),
     join_lines (map ascii [''## 4. Action Items: |'', ''| c |'']))
   \<and> formatSummary (Str inline_heading_example) = Inr (join_lines
     [ascii ''Action Items:'', [], [BULLET] @ ascii '' T: a'',
      ascii ''Action Items: |'', ascii ''| c |''])"
  using only_first_block_replaced [of two_blocks_example "[]"
     "join_lines (map ascii [''## 3. Action Items:'', ''| Task | Owner |'', ''| --- | --- |'',
      ''| Fix bug | Alice |'', ''''])"
     "join_lines (map ascii [''## 4. Action Items:'', ''| Task | Owner |'', ''| --- | --- |'',
      ''| Write docs | Bob |''])"]
    only_first_block_replaced [of inline_heading_example "[]"
     "join_lines (map ascii [''## 3. Action Items:'', ''| T |'', ''| --- |'', ''| a |'',
      ''| ''])"
     "join_lines (map ascii [''## 4. Action Items: |'', ''| c |''])"]
  by (simp add: two_blocks_example_def inline_heading_example_def eval_defs)

text \<open>
  C8, as stated, fails: four line feeds at the end of the input are collapsed to two and
  then removed by the final trim, so none is left in the result.
\<close>

theorem trailing_newlines_removed:
  "formatSummary (Str trailing_newlines_example) = Inr (ascii ''a'')
   \<and> \<not> includes_str (ascii ''a'') [LF, LF]"
  by (simp add: trailing_newlines_example_def eval_defs)

text \<open>
  C8, amended: the result of \<open>formatSummary\<close> holds no run of three or more white-space
  groups that start with a line feed, and so never three line feeds in a row; and the
  collapse step puts exactly two line feeds for such a run that stands between two code
  units that are not white space.
\<close>

theorem newline_runs_collapsed:
  "(formatSummary v = Inr t \<longrightarrow>
      (\<forall>k. \<not> newline_run (drop k t)) \<and> \<not> includes_str t [LF, LF, LF])
   \<and> (newline_run run \<and> (\<forall>c \<in> set run. is_ws c) \<and> \<not> is_ws x \<and> \<not> is_ws y \<longrightarrow>
        collapse_newlines (a @ x # run @ y # b)
          = collapse_newlines (a @ [x]) @ [LF, LF] @ collapse_newlines (y # b))"
proof (intro conjI impI)
  assume f: "formatSummary v = Inr t"
  show nr: "\<forall>k. \<not> newline_run (drop k t)"
  proof
    fix k
    from formatSummary_cases [OF f] show "\<not> newline_run (drop k t)"
      using cleanup_no_run by (auto simp: newline_run_def)
  qed
  show "\<not> includes_str t [LF, LF, LF]"
    using nr includes_str_drop three_LF_run by blast
next
  assume a: "newline_run run \<and> (\<forall>c \<in> set run. is_ws c) \<and> \<not> is_ws x \<and> \<not> is_ws y"
  then have "collapse_newlines (a @ x # run @ y # b)
      = collapse_newlines (a @ [x]) @ collapse_newlines (run @ y # b)"
    using collapse_append_nonws by blast
  then show "collapse_newlines (a @ x # run @ y # b)
          = collapse_newlines (a @ [x]) @ [LF, LF] @ collapse_newlines (y # b)"
    using collapse_run a by simp
qed

text \<open>Witness for C8: four line feeds between two letters.\<close>

theorem newline_runs_collapsed_witness:
  "formatSummary (Str inner_newlines_example) = Inr (ascii ''a'' @ [LF, LF] @ ascii ''b'')
   \<and> \<not> includes_str (ascii ''a'' @ [LF, LF] @ ascii ''b'') [LF, LF, LF]
   \<and> newline_run [LF, LF, LF, LF]
   \<and> collapse_newlines (ascii ''a'' @ [LF, LF, LF, LF] @ ascii ''b'')
       = ascii ''a'' @ [LF, LF] @ ascii ''b''"
  using newline_runs_collapsed [of "Str inner_newlines_example"
      "ascii ''a'' @ [LF, LF] @ ascii ''b''" "[LF, LF, LF, LF]" 97 98 "[]" "[]"]
  by (simp add: inner_newlines_example_def eval_defs)

text \<open>
  C10: when the first line after the heading line is the first one containing \<open>---\<close>, so
  that the separator has index 0 and no header row stands before it, the block is not
  replaced: the result is the cleanup of the input.
\<close>

theorem separator_first_keeps_block:
  assumes "match_action_items s = Some (pre, blk, post)"
    and "includes_str blk [PIPE]"
    and "findIndex (\<lambda>l. includes_str l (ascii ''---''))
           (slice_from 1 (split_on LF (trim blk))) = 0"
  shows "formatSummary (Str s) = Inr (cleanup s)"
proof -
  have "table_replacement blk = Inr None"
    using assms(3) by (simp add: table_replacement_def Let_def)
  then show ?thesis using assms(1) by (simp add: formatSummary_def cleanup_Nil)
qed

text \<open>Witness for C10: a separator row right under the heading.\<close>

theorem separator_first_keeps_block_witness:
  "includes_str no_header_row [PIPE]
   \<and> findIndex (\<lambda>l. includes_str l (ascii ''---''))
        (slice_from 1 (split_on LF (trim no_header_row))) = 0
   \<and> formatSummary (Str no_header_row) = Inr (join_lines (map ascii
     [''Action Items:'', ''| --- | --- |'', ''| Fix bug | Alice |'']))"
  using separator_first_keeps_block [of no_header_row "[]" no_header_row "[]"]
  by (simp add: no_header_row_def eval_defs)

end
